theory Spec2Isabelle
  imports Main "HOL-Library.Sublist"
begin

section \<open>Text: characters, whitespace, slicing\<close>

text \<open>
  A Python \<open>str\<close> is modelled as a \<open>string\<close>; a \<open>char\<close> is read as a code point
  below 256. A file's text is what text-mode reading returns: newline translation has been
  done, so the only line terminator is \<open>NL\<close>.
\<close>

definition NL :: char where
  "NL = CHR 0x0A"

definition DQ :: char where
  "DQ = CHR 0x22"

definition SQ :: char where
  "SQ = CHR 0x27"

definition BSL :: char where
  "BSL = CHR 0x5C"

text \<open>\<open>str.isspace\<close> (and the regex class \<open>\s\<close>) on code points below 256.\<close>

definition is_space :: "char \<Rightarrow> bool" where
  "is_space c =
     (let n = (of_char c :: nat)
      in (9 \<le> n \<and> n \<le> 13) \<or> (28 \<le> n \<and> n \<le> 32) \<or> n = 133 \<or> n = 160)"

text \<open>The regex class \<open>\w\<close> on code points below 256: alphanumeric or underscore.\<close>

definition is_word :: "char \<Rightarrow> bool" where
  "is_word c =
     (let n = (of_char c :: nat)
      in (48 \<le> n \<and> n \<le> 57) \<or> (65 \<le> n \<and> n \<le> 90) \<or> n = 95 \<or> (97 \<le> n \<and> n \<le> 122)
         \<or> n = 170 \<or> n = 178 \<or> n = 179 \<or> n = 181 \<or> n = 185 \<or> n = 186
         \<or> (188 \<le> n \<and> n \<le> 190) \<or> (192 \<le> n \<and> n \<le> 214) \<or> (216 \<le> n \<and> n \<le> 246)
         \<or> 248 \<le> n)"

text \<open>\<open>s.strip()\<close>: whitespace removed at both ends.\<close>

definition strip :: "string \<Rightarrow> string" where
  "strip s = rev (dropWhile is_space (rev (dropWhile is_space s)))"

definition startswith :: "string \<Rightarrow> string \<Rightarrow> bool" where
  "startswith s p = (take (length p) s = p)"

definition endswith :: "string \<Rightarrow> string \<Rightarrow> bool" where
  "endswith s p = (length p \<le> length s \<and> drop (length s - length p) s = p)"

text \<open>\<open>sep.join(xs)\<close>.\<close>

fun join :: "string \<Rightarrow> string list \<Rightarrow> string" where
  "join sep [] = []"
| "join sep [x] = x"
| "join sep (x # y # ys) = x @ sep @ join sep (y # ys)"

text \<open>\<open>f.readlines()\<close>: the text cut after every \<open>NL\<close>, terminators kept.\<close>

fun readlines :: "string \<Rightarrow> string list" where
  "readlines [] = []"
| "readlines (c # cs) =
     (if c = NL then [NL] # readlines cs
      else (case readlines cs of [] \<Rightarrow> [[c]] | l # ls \<Rightarrow> (c # l) # ls))"

text \<open>
  \<open>s.find(sub, start)\<close> and \<open>s.rfind(sub, 0, end)\<close>: the lowest, respectively highest,
  index of an occurrence of \<open>sub\<close> that lies inside the slice, or \<open>-1\<close>.
\<close>

fun find_from :: "string \<Rightarrow> nat \<Rightarrow> string \<Rightarrow> int" where
  "find_from sub k [] = (if sub = [] then int k else -1)"
| "find_from sub k (c # cs) =
     (if take (length sub) (c # cs) = sub then int k else find_from sub (Suc k) cs)"

definition py_find :: "string \<Rightarrow> string \<Rightarrow> nat \<Rightarrow> int" where
  "py_find s sub start = (if length s < start then -1 else find_from sub start (drop start s))"

fun rfind_acc :: "string \<Rightarrow> nat \<Rightarrow> string \<Rightarrow> int \<Rightarrow> int" where
  "rfind_acc sub k [] acc = (if sub = [] then int k else acc)"
| "rfind_acc sub k (c # cs) acc =
     rfind_acc sub (Suc k) cs (if take (length sub) (c # cs) = sub then int k else acc)"

definition py_rfind :: "string \<Rightarrow> string \<Rightarrow> nat \<Rightarrow> int" where
  "py_rfind s sub e = rfind_acc sub 0 (take e s) (-1)"


text \<open>
  The shape of a list of lines as \<open>readlines\<close> returns it: no line is empty, a newline
  stands only at the end of a line, and every line but the last ends with one.
\<close>

definition line_shaped :: "string list \<Rightarrow> bool" where
  "line_shaped ls =
     (\<forall>i < length ls. ls ! i \<noteq> [] \<and> NL \<notin> set (butlast (ls ! i))
                        \<and> (i + 1 < length ls \<longrightarrow> last (ls ! i) = NL))"


section \<open>The fragment of Python's regular expressions that the scripts use\<close>

text \<open>
  Character classes: a literal character, \<open>\s\<close>, \<open>\w\<close> and a negated single character
  such as \<open>[^)]\<close>.
\<close>

datatype cclass = Chr char | Space | Word | Not_chr char

fun cc_ok :: "cclass \<Rightarrow> char \<Rightarrow> bool" where
  "cc_ok (Chr a) c = (c = a)"
| "cc_ok Space c = is_space c"
| "cc_ok Word c = is_word c"
| "cc_ok (Not_chr a) c = (c \<noteq> a)"

text \<open>
  Patterns: literal text, greedy \<open>*\<close> and \<open>+\<close> over a character class, a greedy optional
  part, concatenation and a numbered capturing group.
\<close>

datatype regex =
    Eps
  | Lit string
  | Star cclass
  | Plus cclass
  | Opt regex
  | Seq regex regex
  | Grp nat regex

fun cat :: "regex list \<Rightarrow> regex" where
  "cat [] = Eps"
| "cat (r # rs) = Seq r (cat rs)"

text \<open>
  The backtracking matcher, anchored at the start of the input. It returns every way the
  pattern can match, as the text left over and the groups captured, in the order in which
  Python's engine tries them (greedy first); the engine takes the first.
\<close>

fun star_rests :: "(char \<Rightarrow> bool) \<Rightarrow> string \<Rightarrow> string list" where
  "star_rests P [] = [[]]"
| "star_rests P (c # cs) = (if P c then star_rests P cs @ [c # cs] else [c # cs])"

type_synonym captures = "(nat \<times> string) list"

fun rx_match :: "regex \<Rightarrow> string \<Rightarrow> (string \<times> captures) list" where
  "rx_match Eps s = [(s, [])]"
| "rx_match (Lit l) s = (if take (length l) s = l then [(drop (length l) s, [])] else [])"
| "rx_match (Star c) s = map (\<lambda>r. (r, [])) (star_rests (cc_ok c) s)"
| "rx_match (Plus c) s =
     (case s of [] \<Rightarrow> []
      | x # xs \<Rightarrow> if cc_ok c x then map (\<lambda>r. (r, [])) (star_rests (cc_ok c) xs) else [])"
| "rx_match (Opt r) s = rx_match r s @ [(s, [])]"
| "rx_match (Seq a b) s =
     concat (map (\<lambda>(s1, g1). map (\<lambda>(s2, g2). (s2, g1 @ g2)) (rx_match b s1)) (rx_match a s))"
| "rx_match (Grp n r) s =
     map (\<lambda>(s1, g). (s1, (n, take (length s - length s1) s) # g)) (rx_match r s)"

text \<open>The number of capturing groups of a pattern (\<open>pattern.groups\<close>).\<close>

fun rx_groups :: "regex \<Rightarrow> nat" where
  "rx_groups (Opt r) = rx_groups r"
| "rx_groups (Seq a b) = max (rx_groups a) (rx_groups b)"
| "rx_groups (Grp n r) = max n (rx_groups r)"
| "rx_groups _ = 0"

record rmatch =
  m_start :: nat
  m_end :: nat
  m_groups :: captures

text \<open>\<open>pattern.search(s)\<close>: the first match at the leftmost position that has one.\<close>

fun rx_search_from :: "regex \<Rightarrow> nat \<Rightarrow> string \<Rightarrow> rmatch option" where
  "rx_search_from r k [] =
     (case rx_match r [] of
        (rest, g) # _ \<Rightarrow> Some \<lparr>m_start = k, m_end = k, m_groups = g\<rparr>
      | [] \<Rightarrow> None)"
| "rx_search_from r k (c # cs) =
     (case rx_match r (c # cs) of
        (rest, g) # _ \<Rightarrow>
          Some \<lparr>m_start = k, m_end = k + (length (c # cs) - length rest), m_groups = g\<rparr>
      | [] \<Rightarrow> rx_search_from r (Suc k) cs)"

definition rx_search :: "regex \<Rightarrow> string \<Rightarrow> rmatch option" where
  "rx_search r s = rx_search_from r 0 s"

text \<open>\<open>match.group(n)\<close>; every group of the patterns below takes part in every match.\<close>

definition m_group :: "rmatch \<Rightarrow> nat \<Rightarrow> string" where
  "m_group m n = (case map_of (m_groups m) n of Some g \<Rightarrow> g | None \<Rightarrow> [])"


section \<open>Payload extraction\<close>

definition extract_bracket_content :: "string \<Rightarrow> string" where
  "extract_bracket_content content =
     (if content = [] then []
      else
        let content = strip content
        in if (startswith content [DQ] \<and> endswith content [DQ])
              \<or> (startswith content [SQ] \<and> endswith content [SQ])
           then drop 1 (take (length content - 1) content)
           else content)"


section \<open>Code synthesis\<close>

record registration =
  class_name :: string
  server_impl_content :: string
  file_path :: string

text \<open>The loop of \<open>generate_registration_code\<close>: one statement appended per record.\<close>

fun registration_lines :: "'a registration_scheme list \<Rightarrow> string list \<Rightarrow> string list" where
  "registration_lines [] lines = lines"
| "registration_lines (reg # regs) lines =
     registration_lines regs
       (lines @ [''    ServerProvider::RegisterServer<'' @ class_name reg @ ''>(''
                  @ ([DQ] @ server_impl_content reg @ [DQ]) @ '');''])"

definition generate_registration_code :: "'a registration_scheme list \<Rightarrow> string" where
  "generate_registration_code registrations =
     (if registrations = [] then ''    return false;''
      else join [NL] (registration_lines registrations [] @ [''    return true;'']))"

text \<open>
  The loop of \<open>generate_include_statements\<close>, with the list \<open>includes\<close> and the set
  \<open>seen_paths\<close> as its state. \<open>resolve\<close> stands for \<open>Path(p).resolve()\<close> followed by
  \<open>str\<close>: it depends on the working directory and on symbolic links, so it is a parameter.
\<close>

fun include_loop ::
  "(string \<Rightarrow> string) \<Rightarrow> 'a registration_scheme list \<Rightarrow> string list \<times> string set
     \<Rightarrow> string list \<times> string set" where
  "include_loop resolve [] (includes, seen_paths) = (includes, seen_paths)"
| "include_loop resolve (reg # regs) (includes, seen_paths) =
     (let fp = resolve (file_path reg)
      in if fp \<in> seen_paths then include_loop resolve regs (includes, seen_paths)
         else include_loop resolve regs
                (includes @ [''#include '' @ ([DQ] @ fp @ [DQ])], insert fp seen_paths))"

definition generate_include_statements ::
  "(string \<Rightarrow> string) \<Rightarrow> 'a registration_scheme list \<Rightarrow> string" where
  "generate_include_statements resolve registrations =
     (if registrations = [] then []
      else join [NL] (fst (include_loop resolve registrations ([], {}))))"




section \<open>Files\<close>

text \<open>
  A path names a regular file with its text, a directory, or nothing. Every write is logged
  with its path and text, so that writing a file back unchanged differs from not writing.
\<close>

datatype node = File string | Dir

record world =
  files :: "string \<Rightarrow> node option"
  writes :: "(string \<times> string) list"

definition write_file :: "world \<Rightarrow> string \<Rightarrow> string \<Rightarrow> world" where
  "write_file w path text =
     w\<lparr>files := (files w)(path \<mapsto> File text), writes := writes w @ [(path, text)]\<rparr>"

text \<open>
  The error texts of the scripts, as values: \<open>File does not exist\<close>, \<open>Path is not a file\<close>,
  \<open>ServerProviderInit.h not found\<close>, \<open>Could not find placeholder Init() function to replace\<close>,
  and the text built from an exception caught by the enclosing \<open>try\<close>.
\<close>

datatype error =
    FileNotFound
  | NotAFile
  | InitFileNotFound
  | PlaceholderNotFound
  | CaughtException


section \<open>Scanning and rewriting markers\<close>

definition server_impl_annotation_pattern :: regex where
  "server_impl_annotation_pattern =
     cat [Grp 1 (Star Space), Lit ''/*'', Star Space, Lit ''@ServerImpl'', Star Space, Lit ''('',
          Grp 2 (Star (Not_chr (CHR '')''))), Lit '')'', Star Space, Lit ''*/'']"

definition server_impl_processed_pattern :: regex where
  "server_impl_processed_pattern =
     cat [Lit ''/*--'', Star Space, Lit ''@ServerImpl'', Star Space, Lit ''('',
          Star (Not_chr (CHR '')'')), Lit '')'', Star Space, Lit ''--*/'']"

definition class_pattern :: regex where
  "class_pattern =
     cat [Lit ''class'', Plus Space, Grp 1 (Plus Word), Opt (cat [Plus Space, Lit ''final'']),
          Star Space, Lit '':'', Star Space, Lit ''public'', Plus Space, Lit ''IServer'']"

record match_info = registration +
  line_number :: nat

record scan_result =
  found :: bool
  matches :: "match_info list"
  modified :: bool
  error :: "error option"

text \<open>
  The lookahead \<open>for j in range(i + 1, min(i + 6, len(lines)))\<close>, given the list of those
  \<open>j\<close>: the class name of the first line that has a class declaration.
\<close>

fun find_class :: "string list \<Rightarrow> nat list \<Rightarrow> string option" where
  "find_class lines [] = None"
| "find_class lines (j # js) =
     (case rx_search class_pattern (lines ! j) of
        Some class_match \<Rightarrow> Some (m_group class_match 1)
      | None \<Rightarrow> find_class lines js)"

text \<open>One turn of \<open>for i, line in enumerate(lines)\<close> in \<open>check_and_comment_server_impl\<close>.\<close>

definition scan_step ::
  "string \<Rightarrow> string list \<Rightarrow> string list \<times> scan_result \<Rightarrow> nat \<times> string
     \<Rightarrow> string list \<times> scan_result" where
  "scan_step full_file_path lines st il =
     (let (modified_lines, result) = st;
          (i, line) = il;
          stripped_line = strip line
      in if rx_search server_impl_processed_pattern stripped_line \<noteq> None then st
         else
           (case rx_search server_impl_annotation_pattern stripped_line of
              None \<Rightarrow> st
            | Some server_impl_match \<Rightarrow>
                (case find_class lines [i + 1 ..< min (i + 6) (length lines)] of
                   None \<Rightarrow> st
                 | Some cname \<Rightarrow>
                     let bracket_content = m_group server_impl_match 2;
                         extracted_content = extract_bracket_content bracket_content;
                         (modified_lines, result) =
                           (if rx_search server_impl_processed_pattern stripped_line = None
                            then
                              let indent = m_group server_impl_match 1;
                                  content_part = bracket_content;
                                  processed_line =
                                    indent @ ''/*--@ServerImpl('' @ content_part @ '')--*/'' @ [NL]
                              in (modified_lines[i := processed_line], result\<lparr>modified := True\<rparr>)
                            else (modified_lines, result));
                         match_info =
                           \<lparr>class_name = cname, server_impl_content = extracted_content,
                            file_path = full_file_path, line_number = i + 1\<rparr>
                     in (modified_lines,
                         result\<lparr>matches := matches result @ [match_info], found := True\<rparr>))))"

definition scan_lines :: "string \<Rightarrow> string list \<Rightarrow> string list \<times> scan_result" where
  "scan_lines full_file_path lines =
     foldl (scan_step full_file_path lines)
       (lines, \<lparr>found = False, matches = [], modified = False, error = None\<rparr>)
       (enumerate 0 lines)"

definition check_and_comment_server_impl ::
  "(string \<Rightarrow> string) \<Rightarrow> world \<Rightarrow> string \<Rightarrow> scan_result \<times> world" where
  "check_and_comment_server_impl resolve w path =
     (case files w path of
        None \<Rightarrow> (\<lparr>found = False, matches = [], modified = False, error = Some FileNotFound\<rparr>, w)
      | Some Dir \<Rightarrow> (\<lparr>found = False, matches = [], modified = False, error = Some NotAFile\<rparr>, w)
      | Some (File text) \<Rightarrow>
          (let (modified_lines, result) = scan_lines (resolve path) (readlines text)
           in (result,
               if modified result then write_file w path (concat modified_lines) else w)))"


text \<open>
  The line shapes of the scanner: a line is an unprocessed marker when, stripped, it is not
  skipped as processed and the annotation pattern is found in it; a line has a class
  declaration when the class pattern is found in it.
\<close>

definition unprocessed_marker :: "string \<Rightarrow> bool" where
  "unprocessed_marker line =
     (rx_search server_impl_processed_pattern (strip line) = None
      \<and> rx_search server_impl_annotation_pattern (strip line) \<noteq> None)"



text \<open>
  For stating properties of the scan loop: the loop's state after its first \<open>k\<close> turns, and
  the lines at which the loop rewrites and records a match (an unprocessed marker with a
  class declaration in its lookahead).
\<close>

definition scan_prefix :: "string \<Rightarrow> string list \<Rightarrow> nat \<Rightarrow> string list \<times> scan_result" where
  "scan_prefix full_file_path lines k =
     foldl (scan_step full_file_path lines)
       (lines, \<lparr>found = False, matches = [], modified = False, error = None\<rparr>)
       (take k (enumerate 0 lines))"

definition accepted :: "string list \<Rightarrow> nat \<Rightarrow> bool" where
  "accepted lines i =
     (unprocessed_marker (lines ! i)
      \<and> find_class lines [i + 1 ..< min (i + 6) (length lines)] \<noteq> None)"


text \<open>
  Example inputs: a header with a marker, \<open>n\<close> blank lines and a class declaration (so the
  declaration is \<open>n + 1\<close> lines after the marker), and a world holding one file \<open>a.h\<close>.
\<close>

definition marker_then_class :: "nat \<Rightarrow> string" where
  "marker_then_class n =
     ''/* @ServerImpl('' @ [DQ] @ ''x'' @ [DQ] @ '') */'' @ [NL] @ replicate n NL
     @ ''class Foo : public IServer {'' @ [NL]"

definition one_file :: "string \<Rightarrow> world" where
  "one_file text = \<lparr>files = [''a.h'' \<mapsto> File text], writes = []\<rparr>"


section \<open>Patching the generated file\<close>

definition init_pattern :: regex where
  "init_pattern =
     cat [Grp 1 (cat [Lit ''inline'', Plus Space, Lit ''Bool'', Plus Space, Lit ''Init'', Star Space,
                      Lit ''('', Star Space, Lit '')'', Star Space, Lit ''{'']),
          Star Space, Lit ''return'', Plus Space, Lit ''false'', Star Space, Lit '';'',
          Grp 2 (cat [Star Space, Lit ''}''])]"

text \<open>
  Replacement templates of \<open>pattern.sub\<close>. A template with a backslash is parsed before
  any search: \<open>\1\<close> to \<open>\99\<close> and \<open>\g<n>\<close> refer to groups, three octal digits or
  \<open>\0\<close> with up to two give a character, \<open>\a \b \f \n \r \t \v \\\<close> are the usual
  escapes, a backslash before another ASCII letter or at the end is an error, as is a group
  the pattern does not have, and before any other character the backslash stays.
\<close>

datatype titem = TLit char | TGroup nat

definition is_digit :: "char \<Rightarrow> bool" where
  "is_digit c = (48 \<le> (of_char c :: nat) \<and> (of_char c :: nat) \<le> 57)"

definition is_octdigit :: "char \<Rightarrow> bool" where
  "is_octdigit c = (48 \<le> (of_char c :: nat) \<and> (of_char c :: nat) \<le> 55)"

definition is_ascii_letter :: "char \<Rightarrow> bool" where
  "is_ascii_letter c =
     (let n = (of_char c :: nat) in (65 \<le> n \<and> n \<le> 90) \<or> (97 \<le> n \<and> n \<le> 122))"

definition digit_val :: "char \<Rightarrow> nat" where
  "digit_val c = of_char c - 48"

fun decimal :: "nat \<Rightarrow> string \<Rightarrow> nat" where
  "decimal acc [] = acc"
| "decimal acc (c # cs) = decimal (10 * acc + digit_val c) cs"

definition add_group :: "nat \<Rightarrow> nat \<Rightarrow> nat \<Rightarrow> (titem list \<times> nat) option" where
  "add_group groups index used = (if groups < index then None else Some ([TGroup index], used))"

definition simple_escape :: "char \<Rightarrow> char option" where
  "simple_escape c =
     (if c = CHR ''a'' then Some (CHR 0x07)
      else if c = CHR ''b'' then Some (CHR 0x08)
      else if c = CHR ''f'' then Some (CHR 0x0C)
      else if c = CHR ''n'' then Some (CHR 0x0A)
      else if c = CHR ''r'' then Some (CHR 0x0D)
      else if c = CHR ''t'' then Some (CHR 0x09)
      else if c = CHR ''v'' then Some (CHR 0x0B)
      else if c = BSL then Some BSL
      else None)"

text \<open>
  One escape: \<open>c\<close> is the character after the backslash and \<open>rest\<close> the text after it;
  the result is what the escape stands for and how many characters of \<open>rest\<close> it used.
\<close>

definition template_escape :: "nat \<Rightarrow> char \<Rightarrow> string \<Rightarrow> (titem list \<times> nat) option" where
  "template_escape groups c rest =
     (if c = CHR ''g'' then
        (case rest of
           [] \<Rightarrow> None
         | b # r \<Rightarrow>
             if b \<noteq> CHR ''<'' then None
             else
               let name = takeWhile (\<lambda>x. x \<noteq> CHR ''>'') r
               in if length name = length r \<or> name = [] \<or> \<not> list_all is_digit name then None
                  else add_group groups (decimal 0 name) (length name + 2))
      else if c = CHR ''0'' then
        (case rest of
           [] \<Rightarrow> Some ([TLit (char_of (0::nat))], 0)
         | d1 # r \<Rightarrow>
             if \<not> is_octdigit d1 then Some ([TLit (char_of (0::nat))], 0)
             else
               (case r of
                  [] \<Rightarrow> Some ([TLit (char_of (digit_val d1))], 1)
                | d2 # _ \<Rightarrow>
                    if is_octdigit d2
                    then Some ([TLit (char_of (8 * digit_val d1 + digit_val d2))], 2)
                    else Some ([TLit (char_of (digit_val d1))], 1)))
      else if is_digit c then
        (case rest of
           [] \<Rightarrow> add_group groups (digit_val c) 0
         | d1 # r \<Rightarrow>
             if \<not> is_digit d1 then add_group groups (digit_val c) 0
             else if is_octdigit c \<and> is_octdigit d1
                     \<and> (case r of [] \<Rightarrow> False | d2 # _ \<Rightarrow> is_octdigit d2)
             then
               (let v = 64 * digit_val c + 8 * digit_val d1 + digit_val (hd r)
                in if 255 < v then None else Some ([TLit (char_of v)], 2))
             else add_group groups (10 * digit_val c + digit_val d1) 1)
      else
        (case simple_escape c of
           Some e \<Rightarrow> Some ([TLit e], 0)
         | None \<Rightarrow> if is_ascii_letter c then None else Some ([TLit BSL, TLit c], 0)))"

fun parse_template :: "nat \<Rightarrow> string \<Rightarrow> titem list option" where
  "parse_template groups [] = Some []"
| "parse_template groups [c] = (if c = BSL then None else Some [TLit c])"
| "parse_template groups (c # d # rest) =
     (if c \<noteq> BSL then map_option ((#) (TLit c)) (parse_template groups (d # rest))
      else
        (case template_escape groups d rest of
           None \<Rightarrow> None
         | Some (items, used) \<Rightarrow>
             map_option ((@) items) (parse_template groups (drop used rest))))"

text \<open>The text a parsed template stands for at one match; group 0 is the whole match.\<close>

definition expand_template :: "titem list \<Rightarrow> string \<Rightarrow> captures \<Rightarrow> string" where
  "expand_template t whole g =
     concat (map (\<lambda>it. case it of
                          TLit c \<Rightarrow> [c]
                        | TGroup n \<Rightarrow>
                            if n = 0 then whole
                            else (case map_of g n of Some x \<Rightarrow> x | None \<Rightarrow> [])) t)"

text \<open>
  The loop of \<open>pattern.sub\<close>: at each position the pattern is tried; a match is replaced and
  the scan goes on after it, otherwise one character is copied. (After an empty match one
  character is copied too.)
\<close>

fun sub_loop :: "regex \<Rightarrow> titem list \<Rightarrow> string \<Rightarrow> string" where
  "sub_loop r t s =
     (case rx_match r s of
        [] \<Rightarrow> (case s of [] \<Rightarrow> [] | c # cs \<Rightarrow> c # sub_loop r t cs)
      | (rest, g) # _ \<Rightarrow>
          (let n = length s - length rest
           in if n = 0
              then expand_template t [] g @ (case s of [] \<Rightarrow> [] | c # cs \<Rightarrow> c # sub_loop r t cs)
              else expand_template t (take n s) g @ sub_loop r t (drop n s)))"

declare sub_loop.simps [simp del]

text \<open>\<open>pattern.sub(repl, s)\<close>; \<open>None\<close> when parsing the template raises.\<close>

definition rx_sub :: "regex \<Rightarrow> string \<Rightarrow> string \<Rightarrow> string option" where
  "rx_sub r repl s =
     (if BSL \<notin> set repl then Some (sub_loop r (map TLit repl) s)
      else map_option (\<lambda>t. sub_loop r t s) (parse_template (rx_groups r) repl))"

text \<open>
  \<open>while insert_pos < init_start and content[insert_pos:insert_pos+1].strip() == '':
  insert_pos += 1\<close>
\<close>

function skip_blank :: "string \<Rightarrow> nat \<Rightarrow> nat \<Rightarrow> nat" where
  "skip_blank content init_start insert_pos =
     (if insert_pos < init_start \<and> strip (take 1 (drop insert_pos content)) = []
      then skip_blank content init_start (insert_pos + 1)
      else insert_pos)"
  by pat_completeness auto
termination
  by (relation "measure (\<lambda>(content, init_start, insert_pos). init_start - insert_pos)") auto

declare skip_blank.simps [simp del]

text \<open>The first part of \<open>update_server_factory_init\<close>: the includes put into the text.\<close>

definition insert_includes :: "string \<Rightarrow> string \<Rightarrow> string" where
  "insert_includes content include_statements =
     (if include_statements = [] then content
      else
        (case rx_search init_pattern content of
           None \<Rightarrow> content
         | Some init_match \<Rightarrow>
             let init_start = m_start init_match;
                 last_include_pos = py_rfind content ''#include'' init_start;
                 last_comment_pos = py_rfind content ''/**'' init_start
             in if last_include_pos \<noteq> -1 then
                  let insert_pos =
                        skip_blank content init_start
                          (nat (py_find content [NL] (nat last_include_pos) + 1))
                  in take insert_pos content @ include_statements @ [NL, NL]
                     @ drop insert_pos content
                else if last_comment_pos \<noteq> -1 then
                  let comment_end = py_find content ''*/'' (nat last_comment_pos) + 2;
                      insert_pos =
                        skip_blank content init_start
                          (nat (py_find content [NL] (nat comment_end) + 1))
                  in take insert_pos content @ include_statements @ [NL, NL]
                     @ drop insert_pos content
                else
                  take init_start content @ include_statements @ [NL, NL]
                  @ drop init_start content))"

record patch_result =
  success :: bool
  patch_error :: "error option"

definition init_file_of :: "string \<Rightarrow> string" where
  "init_file_of library_dir = library_dir @ ''/include/ServerProviderInit.h''"

text \<open>\<open>replacement = r'\1\n' + registration_code + r'\2'\<close>\<close>

definition replacement_of :: "string \<Rightarrow> string" where
  "replacement_of registration_code =
     [BSL, CHR ''1'', BSL, CHR ''n''] @ registration_code @ [BSL, CHR ''2'']"

definition update_server_factory_init ::
  "world \<Rightarrow> string \<Rightarrow> string \<Rightarrow> string \<Rightarrow> patch_result \<times> world" where
  "update_server_factory_init w library_dir registration_code include_statements =
     (let init_file = init_file_of library_dir
      in case files w init_file of
           None \<Rightarrow> (\<lparr>success = False, patch_error = Some InitFileNotFound\<rparr>, w)
         | Some Dir \<Rightarrow> (\<lparr>success = False, patch_error = Some CaughtException\<rparr>, w)
         | Some (File text) \<Rightarrow>
             (let content = insert_includes text include_statements;
                  replacement = replacement_of registration_code
              in case rx_sub init_pattern replacement content of
                   None \<Rightarrow> (\<lparr>success = False, patch_error = Some CaughtException\<rparr>, w)
                 | Some new_content \<Rightarrow>
                     if new_content = content \<and> include_statements = []
                     then (\<lparr>success = False, patch_error = Some PlaceholderNotFound\<rparr>, w)
                     else (\<lparr>success = True, patch_error = None\<rparr>,
                           write_file w init_file new_content)))"







text \<open>
  Example inputs for the patcher: a world whose generated file, under the library directory
  \<open>lib\<close>, has the given text.
\<close>

definition init_world :: "string \<Rightarrow> world" where
  "init_world text = \<lparr>files = [init_file_of ''lib'' \<mapsto> File text], writes = []\<rparr>"


text \<open>
  Example texts of the generated file: the placeholder after an include directive, a blank
  line and an indented declaration; after a \<open>/**\<close> comment; and after a plain comment.
\<close>

definition init_after_include :: string where
  "init_after_include =
     ''#include <b.h>'' @ [NL, NL] @ ''  int x;'' @ [NL]
     @ ''inline Bool Init() { return false; }'' @ [NL]"

definition init_after_doc_comment :: string where
  "init_after_doc_comment =
     ''/** doc */'' @ [NL] @ ''int x;'' @ [NL] @ ''inline Bool Init() { return false; }'' @ [NL]"



text \<open>
  A text with two placeholders, and registration records whose payloads hold a backslash:
  \<open>C:\git\<close>, and \<open>a\\b\<close> (two backslashes, an escaped backslash of a C++ string).
\<close>

definition two_placeholders :: string where
  "two_placeholders =
     ''inline Bool Init() { return false; }'' @ [NL]
     @ ''namespace X { inline Bool Init() { return false; } }'' @ [NL]"

definition git_record :: registration where
  "git_record =
     \<lparr>class_name = ''Foo'', server_impl_content = ''C:'' @ [BSL] @ ''git'',
      file_path = ''/src/Foo.h''\<rparr>"

definition escaped_record :: registration where
  "escaped_record =
     \<lparr>class_name = ''Foo'', server_impl_content = ''a'' @ [BSL, BSL] @ ''b'',
      file_path = ''/src/Foo.h''\<rparr>"

definition plain_record :: registration where
  "plain_record =
     \<lparr>class_name = ''Foo'', server_impl_content = ''foo'', file_path = ''/src/Foo.h''\<rparr>"


section \<open>Properties of payload extraction\<close>

lemma strip_decomp:
  "\<exists>l r. s = l @ strip s @ r \<and> list_all is_space l \<and> list_all is_space r"
proof -
  let ?l = "takeWhile is_space s"
  let ?m = "dropWhile is_space s"
  let ?r = "rev (takeWhile is_space (rev ?m))"
  have m: "?m = strip s @ ?r"
    unfolding strip_def
    by (metis rev_append rev_rev_ident takeWhile_dropWhile_id)
  have "s = ?l @ strip s @ ?r" using m by (metis takeWhile_dropWhile_id)
  moreover have "list_all is_space ?l" by (simp add: list_all_iff) (meson set_takeWhileD)
  moreover have "list_all is_space ?r" by (simp add: list_all_iff) (meson set_takeWhileD)
  ultimately show ?thesis by blast
qed

lemma strip_ends:
  "strip s \<noteq> [] \<Longrightarrow> \<not> is_space (hd (strip s)) \<and> \<not> is_space (last (strip s))"
proof -
  assume ne: "strip s \<noteq> []"
  let ?m = "dropWhile is_space s"
  let ?d = "dropWhile is_space (rev ?m)"
  have d: "?d \<noteq> []" using ne by (simp add: strip_def)
  have l: "\<not> is_space (hd ?d)" using d by (rule hd_dropWhile)
  have "last (strip s) = hd ?d" using d by (simp add: strip_def last_rev)
  then have a: "\<not> is_space (last (strip s))" using l by simp
  have "strip s = rev ?d" by (simp add: strip_def)
  have mne: "?m \<noteq> []"
  proof
    assume "?m = []"
    then show False using d by (metis dropWhile.simps(1) rev.simps(1))
  qed
  have hm: "\<not> is_space (hd ?m)" using mne by (rule hd_dropWhile)
  obtain r where "?m = strip s @ r"
    unfolding strip_def by (metis rev_append rev_rev_ident takeWhile_dropWhile_id)
  then have "hd ?m = hd (strip s)" using ne by (metis hd_append2)
  then show ?thesis using a hm by simp
qed

text \<open>
  C4. Extraction trims the surrounding whitespace first. If the trimmed text starts and ends
  with a double quote, or starts and ends with a single quote, that pair is removed and the
  text between is the result (when the trimmed text is a lone quote character, the result
  is empty); otherwise the result is the trimmed text as it is.
\<close>

theorem extract_bracket_content_quotes:
  "(\<exists>l r. s = l @ strip s @ r \<and> list_all is_space l \<and> list_all is_space r
           \<and> (strip s \<noteq> [] \<longrightarrow> \<not> is_space (hd (strip s)) \<and> \<not> is_space (last (strip s))))
   \<and> (\<forall>q body. (q = DQ \<or> q = SQ) \<and> strip s = q # body @ [q]
         \<longrightarrow> extract_bracket_content s = body)
   \<and> (\<forall>q. (q = DQ \<or> q = SQ) \<and> strip s = [q] \<longrightarrow> extract_bracket_content s = [])
   \<and> (\<not> (\<exists>q. (q = DQ \<or> q = SQ) \<and> strip s \<noteq> [] \<and> hd (strip s) = q \<and> last (strip s) = q)
         \<longrightarrow> extract_bracket_content s = strip s)"
proof (intro conjI)
  show "\<forall>q. (q = DQ \<or> q = SQ) \<and> strip s = [q] \<longrightarrow> extract_bracket_content s = []"
    by (auto simp: extract_bracket_content_def Let_def startswith_def endswith_def)
next
  show "\<exists>l r. s = l @ strip s @ r \<and> list_all is_space l \<and> list_all is_space r
           \<and> (strip s \<noteq> [] \<longrightarrow> \<not> is_space (hd (strip s)) \<and> \<not> is_space (last (strip s)))"
    using strip_decomp[of s] strip_ends[of s] by blast
next
  show "\<forall>q body. (q = DQ \<or> q = SQ) \<and> strip s = q # body @ [q]
         \<longrightarrow> extract_bracket_content s = body"
  proof (intro allI impI)
    fix q body assume h: "(q = DQ \<or> q = SQ) \<and> strip s = q # body @ [q]"
    then have ne: "s \<noteq> []" by (auto simp: strip_def)
    from h show "extract_bracket_content s = body"
      using ne by (auto simp: extract_bracket_content_def Let_def startswith_def endswith_def)
  qed
next
  show "\<not> (\<exists>q. (q = DQ \<or> q = SQ) \<and> strip s \<noteq> [] \<and> hd (strip s) = q \<and> last (strip s) = q)
         \<longrightarrow> extract_bracket_content s = strip s"
  proof
    assume h: "\<not> (\<exists>q. (q = DQ \<or> q = SQ) \<and> strip s \<noteq> [] \<and> hd (strip s) = q \<and> last (strip s) = q)"
    have e: "s = [] \<Longrightarrow> strip s = []" by (simp add: strip_def)
    have sw: "\<And>q t. startswith t [q] = (t \<noteq> [] \<and> hd t = q)"
      by (case_tac t) (auto simp: startswith_def)
    have ew: "\<And>q t. endswith t [q] = (t \<noteq> [] \<and> last t = q)"
    proof -
      fix q :: char and t :: string
      show "endswith t [q] = (t \<noteq> [] \<and> last t = q)"
      proof (cases t rule: rev_cases)
        case Nil then show ?thesis by (simp add: endswith_def)
      next
        case (snoc ys y) then show ?thesis by (auto simp: endswith_def)
      qed
    qed
    show "extract_bracket_content s = strip s"
      using h e by (auto simp: extract_bracket_content_def Let_def sw ew)
  qed
qed

theorem extract_bracket_content_quotes_witness:
  "extract_bracket_content ([DQ] @ ''foo'' @ [DQ]) = ''foo''
   \<and> extract_bracket_content ''bar'' = ''bar''
   \<and> extract_bracket_content ('' '' @ [SQ] @ ''a b'' @ [SQ] @ '' '') = ''a b''"
proof -
  have s1: "strip ([DQ] @ ''foo'' @ [DQ]) = DQ # ''foo'' @ [DQ]"
    by (simp add: strip_def is_space_def DQ_def)
  have s2: "strip ''bar'' = ''bar''"
    by (simp add: strip_def is_space_def)
  have s3: "strip ('' '' @ [SQ] @ ''a b'' @ [SQ] @ '' '') = SQ # ''a b'' @ [SQ]"
    by (simp add: strip_def is_space_def SQ_def)
  have a: "extract_bracket_content ([DQ] @ ''foo'' @ [DQ]) = ''foo''"
    using extract_bracket_content_quotes[of "[DQ] @ ''foo'' @ [DQ]"] s1 by blast
  have b: "extract_bracket_content ''bar'' = ''bar''"
    using extract_bracket_content_quotes[of "''bar''"] s2 by (simp add: DQ_def SQ_def)
  have c: "extract_bracket_content ('' '' @ [SQ] @ ''a b'' @ [SQ] @ '' '') = ''a b''"
    using extract_bracket_content_quotes[of "'' '' @ [SQ] @ ''a b'' @ [SQ] @ '' ''"] s3 by blast
  show ?thesis using a b c by blast
qed


section \<open>Properties of code synthesis\<close>








lemma generate_include_statements_examples:
  "generate_include_statements (\<lambda>p. p)
     [\<lparr>class_name = ''A'', server_impl_content = ''a'', file_path = ''/src/a.h''\<rparr>,
      \<lparr>class_name = ''B'', server_impl_content = ''b'', file_path = ''/src/a.h''\<rparr>]
     = ''#include '' @ [DQ] @ ''/src/a.h'' @ [DQ]
   \<and> generate_include_statements (\<lambda>p. p)
     [\<lparr>class_name = ''B'', server_impl_content = ''b'', file_path = ''/src/b.h''\<rparr>,
      \<lparr>class_name = ''A'', server_impl_content = ''a'', file_path = ''/src/a.h''\<rparr>,
      \<lparr>class_name = ''C'', server_impl_content = ''c'', file_path = ''/src/b.h''\<rparr>]
     = ''#include '' @ [DQ] @ ''/src/b.h'' @ [DQ] @ [NL] @ ''#include '' @ [DQ] @ ''/src/a.h'' @ [DQ]"
  by (simp add: generate_include_statements_def Let_def)

section \<open>Properties of the matcher\<close>


lemma in_star_rests:
  "r \<in> set (star_rests P s) \<longleftrightarrow> (\<exists>v. s = v @ r \<and> list_all P v)"
proof (induction s)
  case Nil
  show ?case by auto
next
  case (Cons c cs)
  show ?case
  proof (cases "P c")
    case True
    have "(\<exists>v. c # cs = v @ r \<and> list_all P v) \<longleftrightarrow> (r = c # cs \<or> (\<exists>v. cs = v @ r \<and> list_all P v))"
      using True by (auto simp: Cons_eq_append_conv)
    then show ?thesis using True Cons.IH by auto
  next
    case False
    have "(\<exists>v. c # cs = v @ r \<and> list_all P v) \<longleftrightarrow> r = c # cs"
      using False by (auto simp: Cons_eq_append_conv)
    then show ?thesis using False by auto
  qed
qed

lemma in_rx_Eps: "(r, g) \<in> set (rx_match Eps s) \<longleftrightarrow> r = s \<and> g = []"
  by auto

lemma in_rx_Lit: "(r, g) \<in> set (rx_match (Lit l) s) \<longleftrightarrow> s = l @ r \<and> g = []"
proof -
  have "take (length l) s = l \<and> r = drop (length l) s \<longleftrightarrow> s = l @ r"
    by (metis append_eq_conv_conj)
  then show ?thesis by auto
qed

lemma in_rx_Star:
  "(r, g) \<in> set (rx_match (Star c) s) \<longleftrightarrow> g = [] \<and> (\<exists>v. s = v @ r \<and> list_all (cc_ok c) v)"
  by (auto simp: in_star_rests)

lemma in_rx_Plus:
  "(r, g) \<in> set (rx_match (Plus c) s)
     \<longleftrightarrow> g = [] \<and> (\<exists>v. v \<noteq> [] \<and> s = v @ r \<and> list_all (cc_ok c) v)"
proof (cases s)
  case Nil
  then show ?thesis by auto
next
  case (Cons x xs)
  show ?thesis
  proof (cases "cc_ok c x")
    case True
    have "(\<exists>v. v \<noteq> [] \<and> x # xs = v @ r \<and> list_all (cc_ok c) v)
            \<longleftrightarrow> (\<exists>v. xs = v @ r \<and> list_all (cc_ok c) v)"
      using True by (auto simp: Cons_eq_append_conv)
    then show ?thesis using Cons True by (auto simp: in_star_rests)
  next
    case False
    have "\<not> (\<exists>v. v \<noteq> [] \<and> x # xs = v @ r \<and> list_all (cc_ok c) v)"
      using False by (auto simp: Cons_eq_append_conv)
    then show ?thesis using Cons False by auto
  qed
qed

lemma in_rx_Opt:
  "(r, g) \<in> set (rx_match (Opt x) s) \<longleftrightarrow> (r, g) \<in> set (rx_match x s) \<or> (r = s \<and> g = [])"
  by auto

lemma in_rx_Seq:
  "(r, g) \<in> set (rx_match (Seq a b) s)
     \<longleftrightarrow> (\<exists>s1 g1 g2. (s1, g1) \<in> set (rx_match a s) \<and> (r, g2) \<in> set (rx_match b s1) \<and> g = g1 @ g2)"
  by fastforce

lemma in_rx_Grp:
  "(r, g) \<in> set (rx_match (Grp n x) s)
     \<longleftrightarrow> (\<exists>g'. (r, g') \<in> set (rx_match x s) \<and> g = (n, take (length s - length r) s) # g')"
  by auto

lemmas in_rx = in_rx_Eps in_rx_Lit in_rx_Star in_rx_Plus in_rx_Opt in_rx_Seq in_rx_Grp

lemma rx_search_from_Some:
  "rx_search_from r k s = Some m \<Longrightarrow>
     \<exists>u t rest. s = u @ t \<and> rx_match r t \<noteq> [] \<and> hd (rx_match r t) = (rest, m_groups m)
        \<and> m_start m = k + length u \<and> m_end m = k + length u + (length t - length rest)
        \<and> (\<forall>u' t'. s = u' @ t' \<and> length u' < length u \<longrightarrow> rx_match r t' = [])"
proof (induction s arbitrary: k)
  case Nil
  then show ?case by (auto split: list.splits)
next
  case (Cons c cs)
  show ?case
  proof (cases "rx_match r (c # cs)")
    case Nil
    then have "rx_search_from r (Suc k) cs = Some m" using Cons.prems by simp
    from Cons.IH[OF this] obtain u t rest where
      h: "cs = u @ t" "rx_match r t \<noteq> []" "hd (rx_match r t) = (rest, m_groups m)"
         "m_start m = Suc k + length u" "m_end m = Suc k + length u + (length t - length rest)"
         "\<forall>u' t'. cs = u' @ t' \<and> length u' < length u \<longrightarrow> rx_match r t' = []"
      by blast
    have "\<forall>u' t'. c # cs = u' @ t' \<and> length u' < length (c # u) \<longrightarrow> rx_match r t' = []"
    proof (intro allI impI)
      fix u' t' assume a: "c # cs = u' @ t' \<and> length u' < length (c # u)"
      show "rx_match r t' = []"
      proof (cases u')
        case Nil
        then show ?thesis using a \<open>rx_match r (c # cs) = []\<close> by simp
      next
        case (Cons x xs)
        then show ?thesis using a h(6) by auto
      qed
    qed
    then show ?thesis using h
      by (intro exI[of _ "c # u"] exI[of _ t] exI[of _ rest]) simp
  next
    case (Cons p ps)
    obtain rest g where p: "p = (rest, g)" by (cases p)
    have "m = \<lparr>m_start = k, m_end = k + (length (c # cs) - length rest), m_groups = g\<rparr>"
      using Cons p Cons.prems by simp
    then show ?thesis using Cons p
      by (intro exI[of _ "[]"] exI[of _ "c # cs"] exI[of _ rest]) simp
  qed
qed

lemma rx_search_from_None:
  "rx_search_from r k s = None \<longleftrightarrow> (\<forall>u t. s = u @ t \<longrightarrow> rx_match r t = [])"
proof (induction s arbitrary: k)
  case Nil
  show ?case by (auto split: list.splits)
next
  case (Cons c cs)
  show ?case
  proof (cases "rx_match r (c # cs)")
    case Nil
    have "(\<forall>u t. c # cs = u @ t \<longrightarrow> rx_match r t = []) \<longleftrightarrow> (\<forall>u t. cs = u @ t \<longrightarrow> rx_match r t = [])"
      using Nil by (auto simp: Cons_eq_append_conv)
    then show ?thesis using Nil Cons.IH[of "Suc k"] by simp
  next
    case (Cons p ps)
    then have "rx_search_from r k (c # cs) \<noteq> None" by (auto split: prod.splits)
    moreover have "\<not> (\<forall>u t. c # cs = u @ t \<longrightarrow> rx_match r t = [])"
      using Cons by (metis append_Nil list.distinct(1))
    ultimately show ?thesis by blast
  qed
qed

lemma rx_search_None:
  "rx_search r s = None \<longleftrightarrow> (\<forall>u t. s = u @ t \<longrightarrow> rx_match r t = [])"
  by (simp add: rx_search_def rx_search_from_None)

lemma rx_search_Some:
  "rx_search r s = Some m \<Longrightarrow>
     \<exists>u t rest. s = u @ t \<and> (rest, m_groups m) \<in> set (rx_match r t)
        \<and> hd (rx_match r t) = (rest, m_groups m)
        \<and> m_start m = length u \<and> m_end m = length u + (length t - length rest)
        \<and> (\<forall>u' t'. s = u' @ t' \<and> length u' < length u \<longrightarrow> rx_match r t' = [])"
proof -
  assume "rx_search r s = Some m"
  then have "rx_search_from r 0 s = Some m" by (simp add: rx_search_def)
  from rx_search_from_Some[OF this] obtain u t rest where
    h: "s = u @ t" "rx_match r t \<noteq> []" "hd (rx_match r t) = (rest, m_groups m)"
       "m_start m = 0 + length u" "m_end m = 0 + length u + (length t - length rest)"
       "\<forall>u' t'. s = u' @ t' \<and> length u' < length u \<longrightarrow> rx_match r t' = []"
    by blast
  have "(rest, m_groups m) \<in> set (rx_match r t)" using h(2,3) by (metis hd_in_set)
  then show ?thesis using h by auto
qed

lemma take_app_diff: "take (length (v @ r) - length r) (v @ r) = v"
  by simp

lemma cc_ok_fun:
  "cc_ok Space = is_space" "cc_ok Word = is_word" "cc_ok (Not_chr a) = (\<lambda>c. c \<noteq> a)"
  by (rule ext, simp)+

lemmas shape_simps = take_app_diff append_Nil append_Nil2 append.simps append_assoc

lemma annotation_match_shape:
  "(rest, g) \<in> set (rx_match server_impl_annotation_pattern t) \<longleftrightarrow>
    (\<exists>v va vb vc vd.
           t = v @ ''/*'' @ va @ ''@ServerImpl'' @ vb @ ''('' @ vc @ '')'' @ vd @ ''*/'' @ rest
           \<and> list_all is_space v \<and> list_all is_space va \<and> list_all is_space vb
           \<and> list_all (\<lambda>c. c \<noteq> CHR '')'') vc \<and> list_all is_space vd
           \<and> g = [(1, v), (2, vc)])"
  unfolding server_impl_annotation_pattern_def cat.simps
  apply (simp only: in_rx cc_ok_fun)
  apply (rule iffI)
   apply (elim exE conjE)
   apply (simp only: shape_simps)
   apply (intro exI conjI)
         apply (assumption | rule refl)+
  apply (elim exE conjE)
  apply (simp only: shape_simps)
  apply (intro exI conjI)
  apply (assumption | rule refl)+
  apply simp_all
  done


lemma processed_match_shape:
  "(rest, g) \<in> set (rx_match server_impl_processed_pattern t) \<longleftrightarrow>
     (\<exists>va vb vc vd.
           t = ''/*--'' @ va @ ''@ServerImpl'' @ vb @ ''('' @ vc @ '')'' @ vd @ ''--*/'' @ rest
           \<and> list_all is_space va \<and> list_all is_space vb
           \<and> list_all (\<lambda>c. c \<noteq> CHR '')'') vc \<and> list_all is_space vd
           \<and> g = [])"
  unfolding server_impl_processed_pattern_def cat.simps
  apply (simp only: in_rx cc_ok_fun)
  apply (rule iffI)
   apply (elim exE conjE)
   apply (simp only: shape_simps)
   apply (intro exI conjI)
         apply (assumption | rule refl)+
  apply (elim exE conjE)
  apply (simp only: shape_simps)
  apply (intro exI conjI)
  apply (assumption | rule refl)+
  apply simp_all
  done

lemma strip_core:
  assumes "list_all is_space l" "list_all is_space r" "core \<noteq> []"
    "\<not> is_space (hd core)" "\<not> is_space (last core)"
  shows "strip (l @ core @ r) = core"
proof -
  obtain c cs where c: "core = c # cs" using assms(3) by (cases core) auto
  have a: "dropWhile is_space (l @ core @ r) = core @ r"
    using assms(1,4) c by (simp add: dropWhile_append list_all_iff)
  obtain ds d where d: "core = ds @ [d]" using assms(3) by (cases core rule: rev_cases) auto
  have "dropWhile is_space (rev (core @ r)) = rev core"
    using assms(2,5) d by (simp add: dropWhile_append list_all_iff)
  then show ?thesis by (simp add: strip_def a)
qed

lemma rx_search_hit: "(rest, g) \<in> set (rx_match r s) \<Longrightarrow> rx_search r s \<noteq> None"
proof -
  assume "(rest, g) \<in> set (rx_match r s)"
  then have "rx_match r s \<noteq> []" by auto
  then have "\<not> (\<forall>u t. s = u @ t \<longrightarrow> rx_match r t = [])" by (metis append_Nil)
  then show ?thesis by (simp add: rx_search_None)
qed

lemma processed_line_is_processed:
  assumes "list_all is_space indent" "CHR '')'' \<notin> set content"
  shows "rx_search server_impl_processed_pattern
           (strip (indent @ ''/*--@ServerImpl('' @ content @ '')--*/'' @ [NL])) \<noteq> None"
proof -
  define core where "core = ''/*--@ServerImpl('' @ content @ '')--*/''"
  have c1: "core \<noteq> []" "\<not> is_space (hd core)" "\<not> is_space (last core)"
    by (simp_all add: core_def is_space_def)
  have "strip (indent @ core @ [NL]) = core"
    using assms(1) c1 by (intro strip_core) (simp_all add: is_space_def NL_def)
  then have eq: "strip (indent @ ''/*--@ServerImpl('' @ content @ '')--*/'' @ [NL]) = core"
    by (simp add: core_def)
  have mem: "([], []) \<in> set (rx_match server_impl_processed_pattern core)"
    unfolding core_def using assms(2)
    by (subst processed_match_shape)
       (rule exI[of _ "[]"], rule exI[of _ "[]"], rule exI[of _ content], rule exI[of _ "[]"],
        auto simp: list_all_iff)
  show ?thesis unfolding eq using mem by (rule rx_search_hit)
qed

section \<open>Properties of the scan loop\<close>





lemma scan_step_skip:
  assumes "\<not> (unprocessed_marker line
              \<and> find_class lines [i + 1 ..< min (i + 6) (length lines)] \<noteq> None)"
  shows "scan_step p lines st (i, line) = st"
  using assms
  by (cases st) (auto simp: scan_step_def unprocessed_marker_def Let_def split: option.splits)

lemma scan_step_accept:
  assumes "unprocessed_marker line"
    and "find_class lines [i + 1 ..< min (i + 6) (length lines)] = Some c"
  shows "\<exists>m. rx_search server_impl_annotation_pattern (strip line) = Some m
           \<and> scan_step p lines (ml, res) (i, line) =
               (ml[i := m_group m 1 @ ''/*--@ServerImpl('' @ m_group m 2 @ '')--*/'' @ [NL]],
                res\<lparr>modified := True,
                    matches := matches res @
                      [\<lparr>class_name = c, server_impl_content = extract_bracket_content (m_group m 2),
                        file_path = p, line_number = i + 1\<rparr>],
                    found := True\<rparr>)"
  using assms
  by (auto simp: scan_step_def unprocessed_marker_def Let_def split: option.splits)

lemma scan_prefix_0:
  "scan_prefix p lines 0 = (lines, \<lparr>found = False, matches = [], modified = False, error = None\<rparr>)"
  by (simp add: scan_prefix_def)

lemma scan_prefix_Suc:
  assumes "k < length lines"
  shows "scan_prefix p lines (Suc k) = scan_step p lines (scan_prefix p lines k) (k, lines ! k)"
proof -
  have "take (Suc k) (enumerate 0 lines) = take k (enumerate 0 lines) @ [(k, lines ! k)]"
    using assms by (simp add: take_Suc_conv_app_nth nth_enumerate_eq)
  then show ?thesis by (simp add: scan_prefix_def)
qed

lemma scan_lines_prefix: "scan_lines p lines = scan_prefix p lines (length lines)"
  by (simp add: scan_lines_def scan_prefix_def)

lemma scan_prefix_length:
  "k \<le> length lines \<Longrightarrow> length (fst (scan_prefix p lines k)) = length lines"
proof (induction k)
  case 0
  show ?case by (simp add: scan_prefix_0)
next
  case (Suc k)
  then have k: "k < length lines" and ih: "length (fst (scan_prefix p lines k)) = length lines"
    by auto
  obtain ml res where st: "scan_prefix p lines k = (ml, res)" by (cases "scan_prefix p lines k")
  show ?case
  proof (cases "accepted lines k")
    case True
    then obtain c where "find_class lines [k + 1 ..< min (k + 6) (length lines)] = Some c"
      and "unprocessed_marker (lines ! k)" by (auto simp: accepted_def)
    from scan_step_accept[OF this(2,1), of p ml res] show ?thesis
      using ih st by (auto simp: scan_prefix_Suc[OF k])
  next
    case False
    then show ?thesis using ih scan_step_skip[of "lines ! k" lines k p]
      by (simp add: scan_prefix_Suc[OF k] accepted_def)
  qed
qed

lemma scan_prefix_result:
  "k \<le> length lines \<Longrightarrow>
     error (snd (scan_prefix p lines k)) = None
     \<and> map line_number (matches (snd (scan_prefix p lines k)))
         = map Suc (filter (accepted lines) [0 ..< k])
     \<and> modified (snd (scan_prefix p lines k)) = (\<exists>i < k. accepted lines i)
     \<and> found (snd (scan_prefix p lines k)) = (\<exists>i < k. accepted lines i)"
proof (induction k)
  case 0
  show ?case by (simp add: scan_prefix_0)
next
  case (Suc k)
  then have k: "k < length lines" by simp
  note ih = Suc.IH[OF less_imp_le[OF k]]
  obtain ml res where st: "scan_prefix p lines k = (ml, res)" by (cases "scan_prefix p lines k")
  show ?case
  proof (cases "accepted lines k")
    case True
    then obtain c where "find_class lines [k + 1 ..< min (k + 6) (length lines)] = Some c"
      and "unprocessed_marker (lines ! k)" by (auto simp: accepted_def)
    from scan_step_accept[OF this(2,1), of p ml res] show ?thesis
      using ih st True by (auto simp: scan_prefix_Suc[OF k])
  next
    case False
    have "scan_prefix p lines (Suc k) = scan_prefix p lines k"
      using False scan_step_skip[of "lines ! k" lines k p]
      by (simp add: scan_prefix_Suc[OF k] accepted_def)
    then show ?thesis using ih False by (auto simp: less_Suc_eq)
  qed
qed

lemma scan_prefix_lines:
  "k \<le> length lines \<Longrightarrow> i < length lines \<Longrightarrow>
     (if i < k \<and> accepted lines i
      then \<exists>m. rx_search server_impl_annotation_pattern (strip (lines ! i)) = Some m
             \<and> fst (scan_prefix p lines k) ! i =
                 m_group m 1 @ ''/*--@ServerImpl('' @ m_group m 2 @ '')--*/'' @ [NL]
      else fst (scan_prefix p lines k) ! i = lines ! i)"
proof (induction k)
  case 0
  show ?case by (simp add: scan_prefix_0)
next
  case (Suc k)
  then have k: "k < length lines" by simp
  note ih = Suc.IH[OF less_imp_le[OF k] Suc.prems(2)]
  note len = scan_prefix_length[OF less_imp_le[OF k], of p]
  obtain ml res where st: "scan_prefix p lines k = (ml, res)" by (cases "scan_prefix p lines k")
  show ?case
  proof (cases "accepted lines k")
    case True
    then obtain c where "find_class lines [k + 1 ..< min (k + 6) (length lines)] = Some c"
      and "unprocessed_marker (lines ! k)" by (auto simp: accepted_def)
    from scan_step_accept[OF this(2,1), of p ml res] obtain m where
      m: "rx_search server_impl_annotation_pattern (strip (lines ! k)) = Some m"
      and s: "fst (scan_prefix p lines (Suc k)) =
                ml[k := m_group m 1 @ ''/*--@ServerImpl('' @ m_group m 2 @ '')--*/'' @ [NL]]"
      using st by (auto simp: scan_prefix_Suc[OF k])
    show ?thesis
    proof (cases "i = k")
      case True
      then show ?thesis using \<open>accepted lines k\<close> m s len st k by simp
    next
      case False
      then show ?thesis using ih s st by (auto simp: less_Suc_eq)
    qed
  next
    case False
    have "scan_prefix p lines (Suc k) = scan_prefix p lines k"
      using False scan_step_skip[of "lines ! k" lines k p]
      by (simp add: scan_prefix_Suc[OF k] accepted_def)
    then show ?thesis using ih False by (auto simp: less_Suc_eq)
  qed
qed

section \<open>Lines of a file\<close>


lemma line_shaped_Nil: "line_shaped []"
  by (simp add: line_shaped_def)

lemma line_shaped_Cons:
  "line_shaped (l # ls) \<longleftrightarrow>
     l \<noteq> [] \<and> NL \<notin> set (butlast l) \<and> (ls \<noteq> [] \<longrightarrow> last l = NL) \<and> line_shaped ls"
proof
  assume a: "line_shaped (l # ls)"
  have "l \<noteq> [] \<and> NL \<notin> set (butlast l) \<and> (ls \<noteq> [] \<longrightarrow> last l = NL)"
    using a[unfolded line_shaped_def, rule_format, of 0] by auto
  moreover have "line_shaped ls"
    unfolding line_shaped_def
  proof (intro allI impI)
    fix i assume "i < length ls"
    then have "Suc i < length (l # ls)" by simp
    from a[unfolded line_shaped_def, rule_format, OF this]
    show "ls ! i \<noteq> [] \<and> NL \<notin> set (butlast (ls ! i)) \<and> (i + 1 < length ls \<longrightarrow> last (ls ! i) = NL)"
      by simp
  qed
  ultimately show "l \<noteq> [] \<and> NL \<notin> set (butlast l) \<and> (ls \<noteq> [] \<longrightarrow> last l = NL) \<and> line_shaped ls"
    by simp
next
  assume a: "l \<noteq> [] \<and> NL \<notin> set (butlast l) \<and> (ls \<noteq> [] \<longrightarrow> last l = NL) \<and> line_shaped ls"
  show "line_shaped (l # ls)"
    unfolding line_shaped_def
  proof (intro allI impI)
    fix i assume i: "i < length (l # ls)"
    show "(l # ls) ! i \<noteq> [] \<and> NL \<notin> set (butlast ((l # ls) ! i))
            \<and> (i + 1 < length (l # ls) \<longrightarrow> last ((l # ls) ! i) = NL)"
    proof (cases i)
      case 0
      then show ?thesis using a by auto
    next
      case (Suc j)
      then have "j < length ls" using i by simp
      then show ?thesis using a Suc unfolding line_shaped_def by simp
    qed
  qed
qed

lemma readlines_line:
  "NL \<notin> set b \<Longrightarrow> readlines (b @ NL # rest) = (b @ [NL]) # readlines rest"
  by (induction b) auto

lemma readlines_last:
  "NL \<notin> set b \<Longrightarrow> b \<noteq> [] \<Longrightarrow> readlines b = [b]"
proof (induction b)
  case Nil
  then show ?case by simp
next
  case (Cons c cs)
  then show ?case by (cases cs) auto
qed

lemma readlines_concat:
  "line_shaped ls \<Longrightarrow> readlines (concat ls) = ls"
proof (induction ls)
  case Nil
  show ?case by simp
next
  case (Cons l ls)
  then have l: "l \<noteq> []" "NL \<notin> set (butlast l)" "ls \<noteq> [] \<longrightarrow> last l = NL" and sh: "line_shaped ls"
    by (simp_all add: line_shaped_Cons)
  note ih = Cons.IH[OF sh]
  obtain b x where bx: "l = b @ [x]" using l(1) by (cases l rule: rev_cases) auto
  have nb: "NL \<notin> set b" using l(2) bx by simp
  show ?case
  proof (cases "x = NL")
    case True
    have "readlines (b @ NL # concat ls) = (b @ [NL]) # readlines (concat ls)"
      using nb by (rule readlines_line)
    then show ?thesis using ih bx True by simp
  next
    case False
    then have e: "ls = []" using l(3) bx by auto
    have "NL \<notin> set l" using False nb bx by auto
    then show ?thesis using e l(1) readlines_last by simp
  qed
qed

lemma readlines_shaped: "line_shaped (readlines s)"
proof (induction s)
  case Nil
  show ?case by (simp add: line_shaped_Nil)
next
  case (Cons c cs)
  show ?case
  proof (cases "c = NL")
    case True
    then show ?thesis using Cons.IH by (simp add: line_shaped_Cons)
  next
    case False
    show ?thesis
    proof (cases "readlines cs")
      case Nil
      then show ?thesis using False by (simp add: line_shaped_Cons line_shaped_Nil)
    next
      case (Cons l ls)
      then have "line_shaped (l # ls)" using Cons.IH by simp
      then show ?thesis using False Cons by (auto simp: line_shaped_Cons butlast.simps)
    qed
  qed
qed

lemma strip_no_NL:
  assumes "line \<noteq> []" "NL \<notin> set (butlast line)"
  shows "NL \<notin> set (strip line)"
proof
  assume n: "NL \<in> set (strip line)"
  then have ne: "strip line \<noteq> []" by auto
  have sp: "is_space NL" by (simp add: is_space_def NL_def)
  from strip_ends[OF ne] have lst: "last (strip line) \<noteq> NL" using sp by auto
  obtain l r where d: "line = l @ strip line @ r" using strip_decomp by blast
  obtain cb cx where c: "strip line = cb @ [cx]" using ne by (cases "strip line" rule: rev_cases) auto
  have nb: "NL \<in> set cb" using n lst c by auto
  show False
  proof (cases r rule: rev_cases)
    case Nil
    then have "line = (l @ cb) @ [cx]" using d c by simp
    then have "butlast line = l @ cb" by (metis butlast_snoc)
    then show False using nb assms(2) by simp
  next
    case (snoc rb rx)
    then have "line = (l @ strip line @ rb) @ [rx]" using d by simp
    then have "butlast line = l @ strip line @ rb" by (metis butlast_snoc)
    then show False using n assms(2) by simp
  qed
qed

section \<open>Properties of scanning and rewriting\<close>


lemma check_File:
  assumes "files w path = Some (File text)"
  shows "fst (check_and_comment_server_impl resolve w path)
           = snd (scan_lines (resolve path) (readlines text))"
    and "snd (check_and_comment_server_impl resolve w path)
           = (if modified (snd (scan_lines (resolve path) (readlines text)))
              then write_file w path (concat (fst (scan_lines (resolve path) (readlines text))))
              else w)"
  using assms
  by (simp_all add: check_and_comment_server_impl_def split: prod.splits)

lemma matches_line_numbers:
  assumes "files w path = Some (File text)" and "i < length (readlines text)"
  shows "i + 1 \<in> line_number ` set (matches (fst (check_and_comment_server_impl resolve w path)))
           \<longleftrightarrow> accepted (readlines text) i"
    and "error (fst (check_and_comment_server_impl resolve w path)) = None"
proof -
  let ?lines = "readlines text"
  let ?res = "snd (scan_prefix (resolve path) ?lines (length ?lines))"
  have r: "fst (check_and_comment_server_impl resolve w path) = ?res"
    using check_File(1)[OF assms(1)] by (simp add: scan_lines_prefix)
  note inv = scan_prefix_result[of "length ?lines" ?lines "resolve path", OF le_refl]
  have "line_number ` set (matches ?res) = set (map line_number (matches ?res))" by simp
  also have "\<dots> = Suc ` {k. k < length ?lines \<and> accepted ?lines k}"
    using inv by auto
  finally have "i + 1 \<in> line_number ` set (matches ?res) \<longleftrightarrow> accepted ?lines i"
    using assms(2) by auto
  then show "i + 1 \<in> line_number ` set (matches (fst (check_and_comment_server_impl resolve w path)))
           \<longleftrightarrow> accepted (readlines text) i"
    using r by simp
  show "error (fst (check_and_comment_server_impl resolve w path)) = None"
    using r inv by simp
qed



lemma scan_lines_nothing:
  assumes "\<forall>i < length ls. \<not> unprocessed_marker (ls ! i)"
  shows "matches (snd (scan_lines p ls)) = []" "\<not> modified (snd (scan_lines p ls))"
    "\<not> found (snd (scan_lines p ls))" "error (snd (scan_lines p ls)) = None"
proof -
  note inv = scan_prefix_result[of "length ls" ls p, OF le_refl]
  have na: "\<And>i. i < length ls \<Longrightarrow> \<not> accepted ls i" using assms by (simp add: accepted_def)
  then have "filter (accepted ls) [0 ..< length ls] = []" by (auto simp: filter_empty_conv)
  then have "map line_number (matches (snd (scan_lines p ls))) = []"
    using inv by (simp add: scan_lines_prefix)
  then show "matches (snd (scan_lines p ls)) = []" by simp
  show "\<not> modified (snd (scan_lines p ls))" "\<not> found (snd (scan_lines p ls))"
    "error (snd (scan_lines p ls)) = None"
    using inv na by (auto simp: scan_lines_prefix)
qed

lemma rewritten_line_props:
  assumes m: "rx_search server_impl_annotation_pattern (strip line) = Some m"
    and sh: "line \<noteq> []" "NL \<notin> set (butlast line)"
  defines "l \<equiv> m_group m 1 @ ''/*--@ServerImpl('' @ m_group m 2 @ '')--*/'' @ [NL]"
  shows "\<not> unprocessed_marker l" "l \<noteq> []" "NL \<notin> set (butlast l)" "last l = NL"
proof -
  from rx_search_Some[OF m] obtain u t rest where
    s: "strip line = u @ t" and mem: "(rest, m_groups m) \<in> set (rx_match server_impl_annotation_pattern t)"
    by blast
  from mem[unfolded annotation_match_shape] obtain v va vb vc vd where
    t: "t = v @ ''/*'' @ va @ ''@ServerImpl'' @ vb @ ''('' @ vc @ '')'' @ vd @ ''*/'' @ rest"
    and v: "list_all is_space v" and vc: "list_all (\<lambda>c. c \<noteq> CHR '')'') vc"
    and g: "m_groups m = [(1, v), (2, vc)]"
    by blast
  have g1: "m_group m 1 = v" and g2: "m_group m 2 = vc" using g by (simp_all add: m_group_def)
  have nvc: "CHR '')'' \<notin> set vc" using vc by (auto simp: list_all_iff)
  have "rx_search server_impl_processed_pattern (strip l) \<noteq> None"
    unfolding l_def g1 g2 using v nvc by (rule processed_line_is_processed)
  then show "\<not> unprocessed_marker l" by (simp add: unprocessed_marker_def)
  show "l \<noteq> []" by (simp add: l_def)
  have nl: "NL \<notin> set (strip line)" using sh by (rule strip_no_NL)
  have "set v \<subseteq> set (strip line)" "set vc \<subseteq> set (strip line)"
    unfolding s t by auto
  then have "NL \<notin> set v" "NL \<notin> set vc" using nl by auto
  moreover have "butlast l = v @ ''/*--@ServerImpl('' @ vc @ '')--*/''"
    unfolding l_def g1 g2 by (simp add: butlast_append)
  ultimately show "NL \<notin> set (butlast l)" by (simp add: NL_def)
  show "last l = NL" by (simp add: l_def)
qed

lemma scan_lines_all_rewritten:
  assumes sh: "line_shaped ls"
    and all: "\<forall>i < length ls. unprocessed_marker (ls ! i) \<longrightarrow> accepted ls i"
  shows "line_shaped (fst (scan_lines p ls))"
    and "\<forall>i < length (fst (scan_lines p ls)). \<not> unprocessed_marker (fst (scan_lines p ls) ! i)"
proof -
  let ?ml = "fst (scan_lines p ls)"
  have len: "length ?ml = length ls"
    using scan_prefix_length[of "length ls" ls p] by (simp add: scan_lines_prefix)
  have pt: "\<And>i. i < length ls \<Longrightarrow>
     (if accepted ls i
      then \<exists>m. rx_search server_impl_annotation_pattern (strip (ls ! i)) = Some m
             \<and> ?ml ! i = m_group m 1 @ ''/*--@ServerImpl('' @ m_group m 2 @ '')--*/'' @ [NL]
      else ?ml ! i = ls ! i)"
  proof -
    fix i assume i: "i < length ls"
    from scan_prefix_lines[OF le_refl i, of p]
    show "if accepted ls i
      then \<exists>m. rx_search server_impl_annotation_pattern (strip (ls ! i)) = Some m
             \<and> ?ml ! i = m_group m 1 @ ''/*--@ServerImpl('' @ m_group m 2 @ '')--*/'' @ [NL]
      else ?ml ! i = ls ! i"
      by (simp only: i simp_thms scan_lines_prefix)
  qed
  have each: "\<And>i. i < length ls \<Longrightarrow>
      \<not> unprocessed_marker (?ml ! i) \<and> ?ml ! i \<noteq> [] \<and> NL \<notin> set (butlast (?ml ! i))
      \<and> (i + 1 < length ls \<longrightarrow> last (?ml ! i) = NL)"
  proof -
    fix i assume i: "i < length ls"
    from sh[unfolded line_shaped_def, rule_format, OF i]
    have li: "ls ! i \<noteq> []" "NL \<notin> set (butlast (ls ! i))" "i + 1 < length ls \<longrightarrow> last (ls ! i) = NL"
      by auto
    show "\<not> unprocessed_marker (?ml ! i) \<and> ?ml ! i \<noteq> [] \<and> NL \<notin> set (butlast (?ml ! i))
      \<and> (i + 1 < length ls \<longrightarrow> last (?ml ! i) = NL)"
    proof (cases "accepted ls i")
      case True
      with pt[OF i] obtain m where
        m: "rx_search server_impl_annotation_pattern (strip (ls ! i)) = Some m"
        and e: "?ml ! i = m_group m 1 @ ''/*--@ServerImpl('' @ m_group m 2 @ '')--*/'' @ [NL]"
        by auto
      from rewritten_line_props[OF m li(1,2)] show ?thesis unfolding e by blast
    next
      case False
      then have e: "?ml ! i = ls ! i" using pt[OF i] by simp
      have "\<not> unprocessed_marker (ls ! i)" using False all i by blast
      then show ?thesis using li e by simp
    qed
  qed
  show "line_shaped ?ml" unfolding line_shaped_def len using each by blast
  show "\<forall>i < length ?ml. \<not> unprocessed_marker (?ml ! i)" unfolding len using each by blast
qed

text \<open>
  C1. If every unprocessed marker of a file was recorded by a first run of
  \<open>check_and_comment_server_impl\<close>, then after that run no line of the file is an
  unprocessed marker, and a second run records no match, reports \<open>modified\<close> and
  \<open>found\<close> false and no error, and leaves the world as it is: nothing is written.
\<close>

theorem second_run_finds_nothing:
  assumes f: "files w path = Some (File text)"
    and rewritten: "\<forall>i < length (readlines text).
        unprocessed_marker (readlines text ! i) \<longrightarrow>
        i + 1 \<in> line_number ` set (matches (fst (check_and_comment_server_impl resolve w path)))"
    and w1: "w1 = snd (check_and_comment_server_impl resolve w path)"
  shows "\<exists>text1. files w1 path = Some (File text1)
           \<and> (\<forall>l \<in> set (readlines text1). \<not> unprocessed_marker l)
           \<and> matches (fst (check_and_comment_server_impl resolve w1 path)) = []
           \<and> \<not> modified (fst (check_and_comment_server_impl resolve w1 path))
           \<and> \<not> found (fst (check_and_comment_server_impl resolve w1 path))
           \<and> error (fst (check_and_comment_server_impl resolve w1 path)) = None
           \<and> snd (check_and_comment_server_impl resolve w1 path) = w1"
proof -
  let ?ls = "readlines text"
  let ?ml = "fst (scan_lines (resolve path) ?ls)"
  have all: "\<forall>i < length ?ls. unprocessed_marker (?ls ! i) \<longrightarrow> accepted ?ls i"
    using rewritten matches_line_numbers(1)[OF f, of _ resolve] by blast
  define text1 where "text1 = (if modified (snd (scan_lines (resolve path) ?ls)) then concat ?ml else text)"
  have f1: "files w1 path = Some (File text1)"
    unfolding w1 check_File(2)[OF f] text1_def using f by (simp add: write_file_def)
  note props = scan_lines_all_rewritten[OF readlines_shaped all, of "resolve path"]
  have none: "\<forall>i < length (readlines text1). \<not> unprocessed_marker (readlines text1 ! i)"
  proof (cases "modified (snd (scan_lines (resolve path) ?ls))")
    case True
    then have "readlines text1 = ?ml" using readlines_concat[OF props(1)] by (simp add: text1_def)
    then show ?thesis using props(2) by simp
  next
    case False
    then have na: "\<And>i. i < length ?ls \<Longrightarrow> \<not> accepted ?ls i"
      using scan_prefix_result[of "length ?ls" ?ls "resolve path", OF le_refl]
      by (auto simp: scan_lines_prefix)
    have "readlines text1 = ?ls" using False by (simp add: text1_def)
    then show ?thesis using na all by auto
  qed
  note n = scan_lines_nothing[OF none, of "resolve path"]
  have "\<forall>l \<in> set (readlines text1). \<not> unprocessed_marker l"
    using none by (auto simp: in_set_conv_nth)
  then show ?thesis
    using f1 n check_File[OF f1, of resolve] by auto
qed


theorem second_run_finds_nothing_witness:
  "files (snd (check_and_comment_server_impl (\<lambda>p. p) (one_file (marker_then_class 1)) ''a.h'')) ''a.h''
     = Some (File (''/*--@ServerImpl('' @ [DQ] @ ''x'' @ [DQ] @ '')--*/'' @ [NL, NL]
                   @ ''class Foo : public IServer {'' @ [NL]))
   \<and> matches (fst (check_and_comment_server_impl (\<lambda>p. p)
        (snd (check_and_comment_server_impl (\<lambda>p. p) (one_file (marker_then_class 1)) ''a.h''))
        ''a.h'')) = []
   \<and> \<not> modified (fst (check_and_comment_server_impl (\<lambda>p. p)
        (snd (check_and_comment_server_impl (\<lambda>p. p) (one_file (marker_then_class 1)) ''a.h''))
        ''a.h''))
   \<and> snd (check_and_comment_server_impl (\<lambda>p. p)
        (snd (check_and_comment_server_impl (\<lambda>p. p) (one_file (marker_then_class 1)) ''a.h''))
        ''a.h'')
      = snd (check_and_comment_server_impl (\<lambda>p. p) (one_file (marker_then_class 1)) ''a.h'')"
proof -
  let ?w = "one_file (marker_then_class 1)"
  have f: "files ?w ''a.h'' = Some (File (marker_then_class 1))"
    by (simp add: one_file_def)
  have len: "length (readlines (marker_then_class 1)) = 3" by code_simp
  have m0: "1 \<in> line_number ` set (matches (fst (check_and_comment_server_impl (\<lambda>p. p) ?w ''a.h'')))"
    by code_simp
  have m1: "\<not> unprocessed_marker (readlines (marker_then_class 1) ! 1)"
    and m2: "\<not> unprocessed_marker (readlines (marker_then_class 1) ! 2)"
    by code_simp+
  have r: "\<forall>i < length (readlines (marker_then_class 1)).
        unprocessed_marker (readlines (marker_then_class 1) ! i) \<longrightarrow>
        i + 1 \<in> line_number ` set (matches (fst (check_and_comment_server_impl (\<lambda>p. p) ?w ''a.h'')))"
  proof (intro allI impI)
    fix i assume "i < length (readlines (marker_then_class 1))"
      and u: "unprocessed_marker (readlines (marker_then_class 1) ! i)"
    then have "i = 0 \<or> i = 1 \<or> i = 2" using len by arith
    then show "i + 1 \<in> line_number ` set (matches (fst (check_and_comment_server_impl (\<lambda>p. p) ?w ''a.h'')))"
      using u m0 m1 m2 by auto
  qed
  have t1: "files (snd (check_and_comment_server_impl (\<lambda>p. p) ?w ''a.h'')) ''a.h''
     = Some (File (''/*--@ServerImpl('' @ [DQ] @ ''x'' @ [DQ] @ '')--*/'' @ [NL, NL]
                   @ ''class Foo : public IServer {'' @ [NL]))"
    by code_simp
  show ?thesis
    using second_run_finds_nothing[OF f r refl] t1 by auto
qed

text \<open>
  C3. A marker indented by four spaces, followed by a class declaration: the file is written
  back with the marker in its processed form and the raw payload \<open>"x"\<close>, but without the
  four spaces. The pattern is searched in the stripped line, so its first group holds
  no leading indentation.
\<close>

theorem indentation_dropped:
  "writes (snd (check_and_comment_server_impl (\<lambda>p. p)
      (one_file (''    /* @ServerImpl('' @ [DQ] @ ''x'' @ [DQ] @ '') */'' @ [NL]
                 @ ''class Foo : public IServer {'' @ [NL])) ''a.h''))
   = [(''a.h'', ''/*--@ServerImpl('' @ [DQ] @ ''x'' @ [DQ] @ '')--*/'' @ [NL]
                @ ''class Foo : public IServer {'' @ [NL])]"
  by code_simp

section \<open>Properties of the patcher\<close>

lemma rx_search_None_suffix:
  "rx_search r (c # cs) = None \<Longrightarrow> rx_search r cs = None"
  unfolding rx_search_None by (metis append_Cons)

lemma sub_loop_no_match:
  "rx_search r s = None \<Longrightarrow> sub_loop r t s = s"
proof (induction s)
  case Nil
  then have "rx_match r [] = []" unfolding rx_search_None by simp
  then show ?case by (subst sub_loop.simps) simp
next
  case (Cons c cs)
  have "rx_match r (c # cs) = []" using Cons.prems unfolding rx_search_None by (metis append_Nil)
  moreover have "sub_loop r t cs = cs" using Cons.IH rx_search_None_suffix[OF Cons.prems] by simp
  ultimately show ?case by (subst sub_loop.simps) simp
qed

lemma rx_sub_no_match:
  assumes "rx_search r s = None"
  shows "rx_sub r repl s =
           (if BSL \<in> set repl \<and> parse_template (rx_groups r) repl = None then None else Some s)"
  using assms by (auto simp: rx_sub_def sub_loop_no_match)

lemma replacement_has_BSL: "BSL \<in> set (replacement_of registration_code)"
  by (simp add: replacement_of_def)

lemma rx_groups_init_pattern: "rx_groups init_pattern = 2"
  by (simp add: init_pattern_def)

lemma insert_includes_no_placeholder:
  "rx_search init_pattern text = None \<Longrightarrow> insert_includes text include_statements = text"
  by (simp add: insert_includes_def)

lemma parse_template_plain:
  "BSL \<notin> set cs \<Longrightarrow>
     parse_template g (cs @ rest) = map_option ((@) (map TLit cs)) (parse_template g rest)"
proof (induction cs)
  case Nil
  show ?case by (simp add: option.map_ident map_option.identity) 
next
  case (Cons c cs)
  then have c: "c \<noteq> BSL" and ih: "parse_template g (cs @ rest) = map_option ((@) (map TLit cs)) (parse_template g rest)"
    by auto
  show ?case
  proof (cases "cs @ rest")
    case Nil
    then show ?thesis using c by simp
  next
    case (Cons d ds)
    then have "parse_template g ((c # cs) @ rest) = map_option ((#) (TLit c)) (parse_template g (cs @ rest))"
      using c by simp
    then show ?thesis using ih by (simp add: option.map_comp comp_def)
  qed
qed

lemma parse_replacement_plain:
  assumes "BSL \<notin> set registration_code"
  shows "parse_template 2 (replacement_of registration_code)
           = Some ([TGroup 1, TLit NL] @ map TLit registration_code @ [TGroup 2])"
proof -
  have e: "parse_template 2 [BSL, CHR ''2''] = Some [TGroup 2]"
    by (simp add: template_escape_def is_digit_def add_group_def digit_val_def BSL_def)
  have "parse_template 2 (registration_code @ [BSL, CHR ''2''])
          = Some (map TLit registration_code @ [TGroup 2])"
    using parse_template_plain[OF assms, of 2 "[BSL, CHR ''2'']"] e by simp
  then show ?thesis
    by (simp add: replacement_of_def template_escape_def is_digit_def add_group_def digit_val_def
          BSL_def simple_escape_def NL_def)
qed

text \<open>
  C7. When the generated file exists, its text has no placeholder and the include list is
  empty, the patch writes nothing and leaves the world as it is, and reports failure. The
  error is \<open>PlaceholderNotFound\<close> when the replacement built from the registration code
  parses as a template; when it does not (a backslash before \<open>g\<close> in a payload, in the
  example), the exception raised by \<open>pattern.sub\<close> is caught and reported instead.
\<close>

theorem placeholder_absent_no_includes:
  assumes "files w (init_file_of library_dir) = Some (File text)"
    and "rx_search init_pattern text = None"
  shows "snd (update_server_factory_init w library_dir registration_code []) = w
         \<and> success (fst (update_server_factory_init w library_dir registration_code [])) = False
         \<and> patch_error (fst (update_server_factory_init w library_dir registration_code []))
             = Some (if parse_template 2 (replacement_of registration_code) = None
                     then CaughtException else PlaceholderNotFound)"
  using assms
  by (auto simp: update_server_factory_init_def Let_def insert_includes_no_placeholder
        rx_sub_no_match replacement_has_BSL rx_groups_init_pattern)

theorem placeholder_absent_no_includes_witness:
  "snd (update_server_factory_init (init_world ''int x;'') ''lib''
          (generate_registration_code
             [\<lparr>class_name = ''Foo'', server_impl_content = ''C:'' @ [BSL] @ ''git'',
               file_path = ''/src/Foo.h''\<rparr>]) [])
     = init_world ''int x;''
   \<and> patch_error (fst (update_server_factory_init (init_world ''int x;'') ''lib''
          (generate_registration_code
             [\<lparr>class_name = ''Foo'', server_impl_content = ''C:'' @ [BSL] @ ''git'',
               file_path = ''/src/Foo.h''\<rparr>]) []))
     = Some CaughtException
   \<and> patch_error (fst (update_server_factory_init (init_world ''int x;'') ''lib''
          (generate_registration_code
             [\<lparr>class_name = ''Foo'', server_impl_content = ''git'',
               file_path = ''/src/Foo.h''\<rparr>]) []))
     = Some PlaceholderNotFound"
proof -
  have f: "files (init_world ''int x;'') (init_file_of ''lib'') = Some (File ''int x;'')"
    by (simp add: init_world_def)
  have n: "rx_search init_pattern ''int x;'' = None" by code_simp
  have p1: "parse_template 2 (replacement_of (generate_registration_code
             [\<lparr>class_name = ''Foo'', server_impl_content = ''C:'' @ [BSL] @ ''git'',
               file_path = ''/src/Foo.h''\<rparr>])) = None"
    by code_simp
  have p2: "parse_template 2 (replacement_of (generate_registration_code
             [\<lparr>class_name = ''Foo'', server_impl_content = ''git'',
               file_path = ''/src/Foo.h''\<rparr>])) \<noteq> None"
    by code_simp
  show ?thesis
    using placeholder_absent_no_includes[OF f n] p1 p2 by simp
qed

lemma placeholder_absent_no_includes_plain:
  assumes "files w (init_file_of library_dir) = Some (File text)"
    and "rx_search init_pattern text = None"
    and "BSL \<notin> set registration_code"
  shows "update_server_factory_init w library_dir registration_code []
           = (\<lparr>success = False, patch_error = Some PlaceholderNotFound\<rparr>, w)"
  using assms
  by (auto simp: update_server_factory_init_def Let_def insert_includes_no_placeholder
        rx_sub_no_match replacement_has_BSL rx_groups_init_pattern parse_replacement_plain)




section \<open>Properties of the anchor search\<close>




















lemma includes_anchor_examples:
  "insert_includes init_after_include ''#include <a.h>''
     = ''#include <b.h>'' @ [NL, NL] @ ''  #include <a.h>'' @ [NL, NL] @ ''int x;'' @ [NL]
       @ ''inline Bool Init() { return false; }'' @ [NL]
   \<and> insert_includes init_after_doc_comment ''#include <a.h>''
     = ''/** doc */'' @ [NL] @ ''#include <a.h>'' @ [NL, NL] @ ''int x;'' @ [NL]
       @ ''inline Bool Init() { return false; }'' @ [NL]"
  by code_simp


section \<open>Properties of the substitution\<close>

lemma sig_shape:
  "(r, g) \<in> set (rx_match (cat [Lit ''inline'', Plus Space, Lit ''Bool'', Plus Space, Lit ''Init'',
                                 Star Space, Lit ''('', Star Space, Lit '')'', Star Space, Lit ''{'']) s)
   \<Longrightarrow> (\<exists>w1 w2 w3 w4 w5.
          s = ''inline'' @ w1 @ ''Bool'' @ w2 @ ''Init'' @ w3 @ ''('' @ w4 @ '')'' @ w5 @ ''{'' @ r
          \<and> w1 \<noteq> [] \<and> list_all is_space w1 \<and> w2 \<noteq> [] \<and> list_all is_space w2
          \<and> list_all is_space w3 \<and> list_all is_space w4 \<and> list_all is_space w5 \<and> g = [])"
  unfolding cat.simps
  apply (simp only: in_rx cc_ok_fun)
  apply (elim exE conjE)
  apply (simp only: shape_simps)
  apply (intro exI conjI)
          apply (assumption | rule refl)+
  done

lemma body_shape:
  "(r, g) \<in> set (rx_match (cat [Star Space, Lit ''return'', Plus Space, Lit ''false'', Star Space,
                                 Lit '';'', Grp 2 (cat [Star Space, Lit ''}''])]) s)
   \<Longrightarrow> (\<exists>w6 w7 w8 w9.
          s = w6 @ ''return'' @ w7 @ ''false'' @ w8 @ '';'' @ w9 @ ''}'' @ r
          \<and> list_all is_space w6 \<and> w7 \<noteq> [] \<and> list_all is_space w7
          \<and> list_all is_space w8 \<and> list_all is_space w9 \<and> g = [(2, w9 @ ''}'')])"
  unfolding cat.simps
  apply (simp only: in_rx cc_ok_fun)
  apply (elim exE conjE)
  apply (simp only: shape_simps)
  apply (intro exI conjI)
        apply (assumption | rule refl)+
  apply simp
  done

lemma grp_text:
  "(r, g) \<in> set (rx_match (Grp n x) s) \<Longrightarrow> s = v @ r
     \<Longrightarrow> \<exists>g'. (r, g') \<in> set (rx_match x s) \<and> g = (n, v) # g'"
  by auto

lemma init_pattern_split:
  "init_pattern =
     Seq (Grp 1 (cat [Lit ''inline'', Plus Space, Lit ''Bool'', Plus Space, Lit ''Init'',
                      Star Space, Lit ''('', Star Space, Lit '')'', Star Space, Lit ''{'']))
         (cat [Star Space, Lit ''return'', Plus Space, Lit ''false'', Star Space,
               Lit '';'', Grp 2 (cat [Star Space, Lit ''}''])])"
  by (simp add: init_pattern_def)

lemma init_match_shape:
  assumes "(rest, g) \<in> set (rx_match init_pattern t)"
  shows "\<exists>sig body close. t = sig @ body @ close @ rest \<and> sig \<noteq> [] \<and> g = [(1, sig), (2, close)]"
proof -
  let ?S = "cat [Lit ''inline'', Plus Space, Lit ''Bool'', Plus Space, Lit ''Init'',
                      Star Space, Lit ''('', Star Space, Lit '')'', Star Space, Lit ''{'']"
  let ?B = "cat [Star Space, Lit ''return'', Plus Space, Lit ''false'', Star Space,
               Lit '';'', Grp 2 (cat [Star Space, Lit ''}''])]"
  from assms obtain s1 g1 g2 where
    a: "(s1, g1) \<in> set (rx_match (Grp 1 ?S) t)" and b: "(rest, g2) \<in> set (rx_match ?B s1)"
    and g: "g = g1 @ g2"
    unfolding init_pattern_split in_rx_Seq by blast
  from a obtain g1' where a': "(s1, g1') \<in> set (rx_match ?S t)"
    unfolding in_rx_Grp by blast
  from sig_shape[OF a'] obtain w1 w2 w3 w4 w5 where
    t: "t = (''inline'' @ w1 @ ''Bool'' @ w2 @ ''Init'' @ w3 @ ''('' @ w4 @ '')'' @ w5 @ ''{'') @ s1"
    by auto
  from grp_text[OF a t] a' sig_shape have g1: "g1 = [(1, ''inline'' @ w1 @ ''Bool'' @ w2 @ ''Init'' @ w3 @ ''('' @ w4 @ '')'' @ w5 @ ''{'')]"
    by blast
  from body_shape[OF b] obtain w6 w7 w8 w9 where
    s1: "s1 = (w6 @ ''return'' @ w7 @ ''false'' @ w8 @ '';'') @ (w9 @ ''}'') @ rest"
    and g2: "g2 = [(2, w9 @ ''}'')]"
    by auto
  show ?thesis
    using t s1 g g1 g2 by (metis append_Cons append_Nil list.distinct(1))
qed


lemma sub_loop_copy:
  "rx_match r (c # cs) = [] \<Longrightarrow> sub_loop r tm (c # cs) = c # sub_loop r tm cs"
  by (subst sub_loop.simps) simp

lemma sub_loop_copy_prefix:
  "(\<forall>u' t'. u @ t = u' @ t' \<and> length u' < length u \<longrightarrow> rx_match r t' = [])
     \<Longrightarrow> sub_loop r tm (u @ t) = u @ sub_loop r tm t"
proof (induction u)
  case Nil
  show ?case by simp
next
  case (Cons c cs)
  have "(c # cs) @ t = [] @ (c # cs @ t) \<and> length ([] :: string) < length (c # cs)" by simp
  then have "rx_match r (c # cs @ t) = []"
    using Cons.prems by blast
  then have a: "sub_loop r tm ((c # cs) @ t) = c # sub_loop r tm (cs @ t)"
    using sub_loop_copy by simp
  have "\<forall>u' t'. cs @ t = u' @ t' \<and> length u' < length cs \<longrightarrow> rx_match r t' = []"
  proof (intro allI impI)
    fix u' t' assume h: "cs @ t = u' @ t' \<and> length u' < length cs"
    then have "(c # cs) @ t = (c # u') @ t' \<and> length (c # u') < length (c # cs)" by simp
    then show "rx_match r t' = []" using Cons.prems by blast
  qed
  then show ?case using Cons.IH a by simp
qed

lemma sub_loop_at_match:
  assumes "rx_match r t \<noteq> []" and "hd (rx_match r t) = (rest, g)" and "t = v @ rest" and "v \<noteq> []"
  shows "sub_loop r tm t = expand_template tm v g @ sub_loop r tm rest"
proof -
  obtain more where e: "rx_match r t = (rest, g) # more"
    using assms(1,2) by (cases "rx_match r t") auto
  have n: "length t - length rest = length v" using assms(3) by simp
  have "length v \<noteq> 0" using assms(4) by simp
  then show ?thesis
    using e n assms(3) by (subst sub_loop.simps) (simp add: Let_def)
qed

lemma rx_sub_first_match:
  assumes m: "rx_search init_pattern content = Some m"
    and t: "parse_template 2 (replacement_of registration_code) = Some tm"
  shows "m_start m < m_end m \<and> m_end m \<le> length content
         \<and> rx_sub init_pattern (replacement_of registration_code) content
             = Some (take (m_start m) content
                     @ expand_template tm
                         (take (m_end m - m_start m) (drop (m_start m) content)) (m_groups m)
                     @ sub_loop init_pattern tm (drop (m_end m) content))"
proof -
  from rx_search_Some[OF m] obtain u t rest where
    c: "content = u @ t" and mem: "(rest, m_groups m) \<in> set (rx_match init_pattern t)"
    and hd: "hd (rx_match init_pattern t) = (rest, m_groups m)"
    and st: "m_start m = length u" and en: "m_end m = length u + (length t - length rest)"
    and before: "\<forall>u' t'. content = u' @ t' \<and> length u' < length u \<longrightarrow> rx_match init_pattern t' = []"
    by blast
  from init_match_shape[OF mem] obtain sig body close where
    tt: "t = sig @ body @ close @ rest" and sne: "sig \<noteq> []"
    by blast
  define v where "v = sig @ body @ close"
  have tv: "t = v @ rest" and vne: "v \<noteq> []" using tt sne by (simp_all add: v_def)
  have ne: "rx_match init_pattern t \<noteq> []" using mem by auto
  have len: "length t - length rest = length v" using tv by simp
  have a: "sub_loop init_pattern tm content = u @ sub_loop init_pattern tm t"
    unfolding c using before[unfolded c] by (rule sub_loop_copy_prefix)
  have b: "sub_loop init_pattern tm t = expand_template tm v (m_groups m) @ sub_loop init_pattern tm rest"
    using ne hd tv vne by (rule sub_loop_at_match)
  have p1: "take (m_start m) content = u" using c st by simp
  have p2: "take (m_end m - m_start m) (drop (m_start m) content) = v"
    using c st en len tv by simp
  have p3: "drop (m_end m) content = rest" using c st en len tv by simp
  have "rx_sub init_pattern (replacement_of registration_code) content
          = Some (sub_loop init_pattern tm content)"
    using t by (simp add: rx_sub_def replacement_has_BSL rx_groups_init_pattern)
  then show ?thesis using a b p1 p2 p3 st en len vne c tv by simp
qed

lemma expand_template_lits: "expand_template (map TLit cs) whole g = cs"
  by (induction cs) (simp_all add: expand_template_def)

lemma expand_template_append:
  "expand_template (a @ b) whole g = expand_template a whole g @ expand_template b whole g"
  by (simp add: expand_template_def)

lemma expand_plain:
  "expand_template ([TGroup 1, TLit NL] @ map TLit registration_code @ [TGroup 2]) whole
     [(1, sig), (2, close)] = sig @ [NL] @ registration_code @ close"
proof -
  have "expand_template [TGroup 1, TLit NL] whole [(1, sig), (2, close)] = sig @ [NL]"
    by (simp add: expand_template_def)
  moreover have "expand_template [TGroup 2] whole [(1, sig), (2, close)] = close"
    by (simp add: expand_template_def)
  ultimately show ?thesis
    by (simp only: expand_template_append expand_template_lits append_assoc)
qed

lemma rx_sub_first_match_plain:
  assumes m: "rx_search init_pattern content = Some m"
    and plain: "BSL \<notin> set registration_code"
  shows "\<exists>rest'. rx_sub init_pattern (replacement_of registration_code) (drop (m_end m) content)
                    = Some rest'
           \<and> rx_sub init_pattern (replacement_of registration_code) content
               = Some (take (m_start m) content @ m_group m 1 @ [NL] @ registration_code
                       @ m_group m 2 @ rest')"
proof -
  let ?tm = "[TGroup 1, TLit NL] @ map TLit registration_code @ [TGroup 2]"
  note t = parse_replacement_plain[OF plain]
  from rx_search_Some[OF m] obtain u t' rest where
    mem: "(rest, m_groups m) \<in> set (rx_match init_pattern t')" by blast
  from init_match_shape[OF mem] obtain sig close where g: "m_groups m = [(1, sig), (2, close)]"
    by blast
  have g1: "m_group m 1 = sig" and g2: "m_group m 2 = close" using g by (simp_all add: m_group_def)
  have r: "rx_sub init_pattern (replacement_of registration_code) (drop (m_end m) content)
             = Some (sub_loop init_pattern ?tm (drop (m_end m) content))"
    using t by (simp add: rx_sub_def replacement_has_BSL rx_groups_init_pattern)
  show ?thesis
    using rx_sub_first_match[OF m t] r g g1 g2 expand_plain[of registration_code _ sig close]
    by simp
qed

lemma placeholder_replaced_and_scan_continues:
  assumes f: "files w (init_file_of library_dir) = Some (File text)"
    and c: "content = insert_includes text include_statements"
    and m: "rx_search init_pattern content = Some m"
    and plain: "BSL \<notin> set registration_code"
  shows "\<exists>rest' new.
           rx_sub init_pattern (replacement_of registration_code) (drop (m_end m) content)
             = Some rest'
           \<and> new = take (m_start m) content @ m_group m 1 @ [NL] @ registration_code
                   @ m_group m 2 @ rest'
           \<and> update_server_factory_init w library_dir registration_code include_statements
               = (if new = content \<and> include_statements = []
                  then (\<lparr>success = False, patch_error = Some PlaceholderNotFound\<rparr>, w)
                  else (\<lparr>success = True, patch_error = None\<rparr>,
                        write_file w (init_file_of library_dir) new))"
proof -
  from rx_sub_first_match_plain[OF m plain] obtain rest' where
    r: "rx_sub init_pattern (replacement_of registration_code) (drop (m_end m) content) = Some rest'"
    and s: "rx_sub init_pattern (replacement_of registration_code) content
               = Some (take (m_start m) content @ m_group m 1 @ [NL] @ registration_code
                       @ m_group m 2 @ rest')"
    by blast
  show ?thesis
    using f r s c by (auto simp: update_server_factory_init_def Let_def)
qed

lemma two_placeholders_both_replaced:
  "writes (snd (update_server_factory_init (init_world two_placeholders) ''lib''
                  (generate_registration_code [plain_record]) []))
     = [(init_file_of ''lib'',
         ''inline Bool Init() {'' @ [NL]
         @ ''    ServerProvider::RegisterServer<Foo>('' @ [DQ] @ ''foo'' @ [DQ] @ '');'' @ [NL]
         @ ''    return true; }'' @ [NL]
         @ ''namespace X { inline Bool Init() {'' @ [NL]
         @ ''    ServerProvider::RegisterServer<Foo>('' @ [DQ] @ ''foo'' @ [DQ] @ '');'' @ [NL]
         @ ''    return true; } }'' @ [NL])]"
  by code_simp

text \<open>
  C10. The text has two placeholders. With the payload \<open>C:\git\<close> the replacement does not
  parse as a template: the patch reports the caught exception, writes nothing and leaves
  both placeholders in place. With the payload \<open>a\\b\<close> both placeholders are replaced, but
  by a body in which the two backslashes of the registration code have become one. (For a
  registration code without a backslash every placeholder is replaced by the code itself:
  \<open>placeholder_replaced_and_scan_continues\<close>, \<open>two_placeholders_both_replaced\<close>.)
\<close>

theorem backslash_in_payload_breaks_replacement:
  "patch_error (fst (update_server_factory_init (init_world two_placeholders) ''lib''
                       (generate_registration_code [git_record]) []))
     = Some CaughtException
   \<and> snd (update_server_factory_init (init_world two_placeholders) ''lib''
            (generate_registration_code [git_record]) [])
     = init_world two_placeholders
   \<and> generate_registration_code [escaped_record]
     = ''    ServerProvider::RegisterServer<Foo>('' @ [DQ] @ ''a'' @ [BSL, BSL] @ ''b'' @ [DQ]
       @ '');'' @ [NL] @ ''    return true;''
   \<and> writes (snd (update_server_factory_init (init_world two_placeholders) ''lib''
                    (generate_registration_code [escaped_record]) []))
     = [(init_file_of ''lib'',
         ''inline Bool Init() {'' @ [NL]
         @ ''    ServerProvider::RegisterServer<Foo>('' @ [DQ] @ ''a'' @ [BSL] @ ''b'' @ [DQ]
         @ '');'' @ [NL] @ ''    return true; }'' @ [NL]
         @ ''namespace X { inline Bool Init() {'' @ [NL]
         @ ''    ServerProvider::RegisterServer<Foo>('' @ [DQ] @ ''a'' @ [BSL] @ ''b'' @ [DQ]
         @ '');'' @ [NL] @ ''    return true; } }'' @ [NL])]"
proof -
  have a: "patch_error (fst (update_server_factory_init (init_world two_placeholders) ''lib''
                       (generate_registration_code [git_record]) [])) = Some CaughtException"
    by code_simp
  have b: "writes (snd (update_server_factory_init (init_world two_placeholders) ''lib''
            (generate_registration_code [git_record]) [])) = []"
    by code_simp
  have b': "files (snd (update_server_factory_init (init_world two_placeholders) ''lib''
            (generate_registration_code [git_record]) [])) = files (init_world two_placeholders)"
    using a by (auto simp: update_server_factory_init_def Let_def init_world_def write_file_def
                  split: option.splits node.splits if_splits)
  have c: "generate_registration_code [escaped_record]
     = ''    ServerProvider::RegisterServer<Foo>('' @ [DQ] @ ''a'' @ [BSL, BSL] @ ''b'' @ [DQ]
       @ '');'' @ [NL] @ ''    return true;''"
    by code_simp
  have d: "writes (snd (update_server_factory_init (init_world two_placeholders) ''lib''
                    (generate_registration_code [escaped_record]) []))
     = [(init_file_of ''lib'',
         ''inline Bool Init() {'' @ [NL]
         @ ''    ServerProvider::RegisterServer<Foo>('' @ [DQ] @ ''a'' @ [BSL] @ ''b'' @ [DQ]
         @ '');'' @ [NL] @ ''    return true; }'' @ [NL]
         @ ''namespace X { inline Bool Init() {'' @ [NL]
         @ ''    ServerProvider::RegisterServer<Foo>('' @ [DQ] @ ''a'' @ [BSL] @ ''b'' @ [DQ]
         @ '');'' @ [NL] @ ''    return true; } }'' @ [NL])]"
    by code_simp
  have e: "snd (update_server_factory_init (init_world two_placeholders) ''lib''
            (generate_registration_code [git_record]) []) = init_world two_placeholders"
    using b b' by (simp add: init_world_def)
  show ?thesis using a c d e by simp
qed

end
